theory Spec2Isabelle
  imports Main "HOL-Library.Sublist" "HOL-Library.Word"
begin

text \<open>
  A model of \<open>src/3p-frame.js\<close>: the random string (\<open>getRandom\<close>), the sentinel
  (\<open>generateSentinel\<close>), the bootstrap URL (\<open>getBootstrapBaseUrl\<close> and the functions it
  calls) and the message codec (\<open>serializeMessage\<close>, \<open>deserializeMessage\<close>,
  \<open>isAmpMessage\<close>), over models of the JavaScript built-ins they call. The functions that
  build the iframe element and read its attributes (\<open>getIframe\<close>, \<open>getFrameAttributes\<close>,
  \<open>addDataAndJsonAttributes_\<close>, \<open>preloadBootstrap\<close>) are not modelled.
\<close>

section \<open>JavaScript strings\<close>

text \<open>
  A JavaScript string is a sequence of 16-bit code units. The messages carry any text, and
  the codec is modelled on \<open>js_string\<close>, the list of the code units; \<open>js_lit\<close> writes the
  ASCII text of a string literal of the source as a \<open>js_string\<close>. The URLs, the random
  string and the sentinel are built from URLs and numerals, and there a string is a
  \<open>string\<close>, one \<open>char\<close> per code unit, which covers the code units below 256.

  \<open>s.indexOf(needle)\<close> is the least position at which \<open>needle\<close> occurs in \<open>s\<close>, and
  \<open>-1\<close> when there is none: \<open>None\<close> stands for \<open>-1\<close>. \<open>s.substr(start)\<close> with
  \<open>start\<close> within the string is \<open>drop start s\<close>.
\<close>

type_synonym code_unit = "16 word"

type_synonym js_string = "code_unit list"

definition cu :: "char \<Rightarrow> code_unit" where
  "cu c = of_nat (of_char c)"

definition js_lit :: "string \<Rightarrow> js_string" where
  "js_lit s = map cu s"

fun indexOf :: "'a list \<Rightarrow> 'a list \<Rightarrow> nat option" where
  "indexOf [] needle = (if needle = [] then Some 0 else None)"
| "indexOf (c # cs) needle =
     (if prefix needle (c # cs) then Some 0 else map_option Suc (indexOf cs needle))"

definition substr :: "'a list \<Rightarrow> nat \<Rightarrow> 'a list" where
  "substr s start = drop start s"

text \<open>
  A value of any JavaScript type, as far as \<open>typeof v == 'string'\<close> tells them apart: a
  primitive string, or anything else.
\<close>

datatype 'a js_value = JS_string js_string | JS_other 'a

text \<open>The exceptions of the modelled code, as values.\<close>

datatype js_error = SyntaxError | TypeError | HttpsAssertion | UserAssertion string

section \<open>Numbers as strings\<close>

text \<open>
  \<open>String(n)\<close> of a non-negative integer below \<open>10^21\<close> is its decimal numeral, without
  sign or leading zero.
\<close>

definition digit_char :: "nat \<Rightarrow> char" where
  "digit_char d = ''0123456789'' ! d"

fun nat_to_string :: "nat \<Rightarrow> string" where
  "nat_to_string n =
     (if n < 10 then [digit_char n]
      else nat_to_string (n div 10) @ [digit_char (n mod 10)])"

declare nat_to_string.simps [simp del]

definition is_digit :: "char \<Rightarrow> bool" where
  "is_digit c = (48 \<le> (of_char c :: nat) \<and> (of_char c :: nat) \<le> 57)"

text \<open>
  \<open>Number::toString\<close> of ECMAScript reads a finite number \<open>m > 0\<close> through the integers
  \<open>n\<close>, \<open>k\<close>, \<open>s\<close> with \<open>k \<ge> 1\<close>, \<open>10^(k-1) \<le> s < 10^k\<close>, \<open>m = s * 10^(n-k)\<close> and \<open>k\<close> as
  small as possible, and prints \<open>0\<close> for zero. The result of \<open>Math.random()\<close> is carried
  in that form, \<open>Decimal s n\<close> with \<open>s = 0\<close> for zero: the digits \<open>s\<close> and the position
  \<open>n\<close> of the decimal point. The binary double behind it is not modelled.
\<close>

datatype js_number = Decimal nat int

definition Number_toString :: "js_number \<Rightarrow> string" where
  "Number_toString m =
     (case m of Decimal s n \<Rightarrow>
        if s = 0 then ''0''
        else
          let ds = nat_to_string s;
              k = int (length ds);
              e = (if n - 1 < 0 then ''-'' else ''+'') @ nat_to_string (nat \<bar>n - 1\<bar>)
          in if k \<le> n \<and> n \<le> 21 then ds @ replicate (nat (n - k)) (CHR ''0'')
             else if 0 < n \<and> n \<le> 21 then take (nat n) ds @ ''.'' @ drop (nat n) ds
             else if - 6 < n \<and> n \<le> 0 then ''0.'' @ replicate (nat (- n)) (CHR ''0'') @ ds
             else if k = 1 then ds @ ''e'' @ e
             else take 1 ds @ ''.'' @ drop 1 ds @ ''e'' @ e)"

section \<open>JSON\<close>

text \<open>
  The values that \<open>JSON.parse\<close> returns and \<open>JSON.stringify\<close> prints. JavaScript's numbers
  are doubles, whose binary form is not modelled: the type \<open>'n\<close> of the numbers is a
  parameter, and so is what the two built-ins do with a number. \<open>number_text x\<close> is the
  text that \<open>JSON.stringify\<close> prints for \<open>x\<close> (\<open>String(x)\<close> for a finite \<open>x\<close>, \<open>null\<close>
  for \<open>NaN\<close> and the infinities), and \<open>number_value lit\<close> is the number that \<open>JSON.parse\<close>
  reads from the number literal \<open>lit\<close>. The results on the codec hold for every such pair;
  \<open>decimal_numbers\<close> below is one, with fractions and exponents.
\<close>

record 'n js_numbers =
  number_text :: "'n \<Rightarrow> js_string"
  number_value :: "js_string \<Rightarrow> 'n"

datatype 'n json =
    JNull
  | JBool bool
  | JNum 'n
  | JStr js_string
  | JArr "'n json list"
  | JObj "(js_string \<times> 'n json) list"

text \<open>
  An object is the list of its own properties in the order in which JavaScript lists them
  (\<open>OrdinaryOwnPropertyKeys\<close>, which \<open>JSON.stringify\<close> follows), one entry per key: first
  the keys that are array indices, in ascending order, then the other keys in the order
  of their creation. An array index is the decimal numeral, without leading zero, of an
  integer below \<open>2^32 - 1\<close>. \<open>key_before k k'\<close>: the array index \<open>k\<close> is listed before
  \<open>k'\<close>, whenever \<open>k'\<close> was created.
\<close>

definition is_digit_unit :: "code_unit \<Rightarrow> bool" where
  "is_digit_unit c = (0x30 \<le> c \<and> c \<le> 0x39)"

definition units_to_nat :: "js_string \<Rightarrow> nat" where
  "units_to_nat ds = foldl (\<lambda>a c. 10 * a + (unat c - 48)) 0 ds"

definition array_index :: "js_string \<Rightarrow> nat option" where
  "array_index k =
     (if k \<noteq> [] \<and> list_all is_digit_unit k \<and> (k = [cu (CHR ''0'')] \<or> hd k \<noteq> cu (CHR ''0''))
         \<and> units_to_nat k < 2 ^ 32 - 1
      then Some (units_to_nat k) else None)"

definition key_before :: "js_string \<Rightarrow> js_string \<Rightarrow> bool" where
  "key_before k k' =
     (case array_index k of
        None \<Rightarrow> False
      | Some i \<Rightarrow> (case array_index k' of None \<Rightarrow> True | Some j \<Rightarrow> i < j))"

definition keys_ordered :: "js_string list \<Rightarrow> bool" where
  "keys_ordered ks = sorted_wrt (\<lambda>a b. \<not> key_before b a) ks"

text \<open>
  \<open>obj[k]\<close> and \<open>obj[k] = v\<close> on own properties: an assignment to an existing key keeps
  the key's place (\<open>js_update\<close>); a new key takes its place in the order (\<open>js_insert\<close>),
  an array index before the first key that it is listed before, any other key last.
\<close>

definition js_get :: "(js_string \<times> 'v) list \<Rightarrow> js_string \<Rightarrow> 'v option" where
  "js_get obj k = map_of obj k"

fun js_update :: "(js_string \<times> 'v) list \<Rightarrow> js_string \<Rightarrow> 'v \<Rightarrow> (js_string \<times> 'v) list" where
  "js_update [] k v = []"
| "js_update ((k', v') # kvs) k v =
     (if k' = k then (k, v) # kvs else (k', v') # js_update kvs k v)"

fun js_insert :: "(js_string \<times> 'v) list \<Rightarrow> js_string \<Rightarrow> 'v \<Rightarrow> (js_string \<times> 'v) list" where
  "js_insert [] k v = [(k, v)]"
| "js_insert ((k', v') # kvs) k v =
     (if key_before k k' then (k, v) # (k', v') # kvs else (k', v') # js_insert kvs k v)"

definition js_set :: "(js_string \<times> 'v) list \<Rightarrow> js_string \<Rightarrow> 'v \<Rightarrow> (js_string \<times> 'v) list" where
  "js_set obj k v =
     (case js_get obj k of
        Some old \<Rightarrow> js_update obj k v
      | None \<Rightarrow> js_insert obj k v)"

subsection \<open>JSON.stringify\<close>

text \<open>
  \<open>JSON.stringify(value)\<close> without indentation. \<open>quote\<close> is ECMAScript's \<open>QuoteJSONString\<close>:
  the double quote and the backslash are escaped, the control characters below \<open>0x20\<close> are
  written with their short escape or as \<open>\u00XX\<close> in lower-case hexadecimal, a surrogate
  that is not half of a pair is written as \<open>\uXXXX\<close>, and every other code unit is
  written as it is.
\<close>

definition hex_unit :: "nat \<Rightarrow> code_unit" where
  "hex_unit d = cu (''0123456789abcdef'' ! d)"

definition unicode_escape :: "code_unit \<Rightarrow> js_string" where
  "unicode_escape c =
     [cu (CHR 0x5C), cu (CHR ''u''),
      hex_unit (unat c div 4096), hex_unit (unat c div 256 mod 16),
      hex_unit (unat c div 16 mod 16), hex_unit (unat c mod 16)]"

definition quote_unit :: "code_unit \<Rightarrow> js_string" where
  "quote_unit c =
     (if c = cu (CHR 0x22) then [cu (CHR 0x5C), cu (CHR 0x22)]
      else if c = cu (CHR 0x5C) then [cu (CHR 0x5C), cu (CHR 0x5C)]
      else if c = cu (CHR 0x08) then [cu (CHR 0x5C), cu (CHR ''b'')]
      else if c = cu (CHR 0x0C) then [cu (CHR 0x5C), cu (CHR ''f'')]
      else if c = cu (CHR 0x0A) then [cu (CHR 0x5C), cu (CHR ''n'')]
      else if c = cu (CHR 0x0D) then [cu (CHR 0x5C), cu (CHR ''r'')]
      else if c = cu (CHR 0x09) then [cu (CHR 0x5C), cu (CHR ''t'')]
      else if c < 0x20 then unicode_escape c
      else [c])"

definition is_high_surrogate :: "code_unit \<Rightarrow> bool" where
  "is_high_surrogate c = (0xD800 \<le> c \<and> c \<le> 0xDBFF)"

definition is_low_surrogate :: "code_unit \<Rightarrow> bool" where
  "is_low_surrogate c = (0xDC00 \<le> c \<and> c \<le> 0xDFFF)"

fun quote_units :: "js_string \<Rightarrow> js_string" where
  "quote_units [] = []"
| "quote_units (c # cs) =
     (if is_high_surrogate c then
        (case cs of
           [] \<Rightarrow> unicode_escape c
         | d # r \<Rightarrow>
             if is_low_surrogate d then c # d # quote_units r
             else unicode_escape c @ quote_units cs)
      else if is_low_surrogate c then unicode_escape c @ quote_units cs
      else quote_unit c @ quote_units cs)"

definition quote :: "js_string \<Rightarrow> js_string" where
  "quote s = cu (CHR 0x22) # quote_units s @ [cu (CHR 0x22)]"

fun join :: "'a list \<Rightarrow> 'a list list \<Rightarrow> 'a list" where
  "join sep [] = []"
| "join sep [x] = x"
| "join sep (x # y # ys) = x @ sep @ join sep (y # ys)"

fun JSON_stringify :: "'n js_numbers \<Rightarrow> 'n json \<Rightarrow> js_string" where
  "JSON_stringify nf JNull = js_lit ''null''"
| "JSON_stringify nf (JBool b) = (if b then js_lit ''true'' else js_lit ''false'')"
| "JSON_stringify nf (JNum x) = number_text nf x"
| "JSON_stringify nf (JStr s) = quote s"
| "JSON_stringify nf (JArr vs) =
     js_lit ''['' @ join (js_lit '','') (map (JSON_stringify nf) vs) @ js_lit '']''"
| "JSON_stringify nf (JObj kvs) =
     js_lit ''{''
     @ join (js_lit '','') (map (\<lambda>(k, v). quote k @ js_lit '':'' @ JSON_stringify nf v) kvs)
     @ js_lit ''}''"

subsection \<open>JSON.parse\<close>

text \<open>
  \<open>JSON.parse(text)\<close> in two passes over the JSON grammar: the text is cut into tokens,
  and the tokens are read by a machine with a stack of the arrays and objects that are
  still open. A \<open>SyntaxError\<close> is the result \<open>None\<close> of either pass.
\<close>

datatype 'n token = TLBrace | TRBrace | TLBrack | TRBrack | TComma | TColon | TScalar "'n json"

definition hex_val :: "code_unit \<Rightarrow> nat option" where
  "hex_val c =
     (let n = unat c in
      if 48 \<le> n \<and> n \<le> 57 then Some (n - 48)
      else if 97 \<le> n \<and> n \<le> 102 then Some (n - 87)
      else if 65 \<le> n \<and> n \<le> 70 then Some (n - 55)
      else None)"

text \<open>The code unit of \<open>\uXXXX\<close>.\<close>

definition hex4 :: "code_unit \<Rightarrow> code_unit \<Rightarrow> code_unit \<Rightarrow> code_unit \<Rightarrow> code_unit option" where
  "hex4 a b c d =
     (case (hex_val a, hex_val b, hex_val c, hex_val d) of
        (Some w, Some x, Some y, Some z) \<Rightarrow> Some (of_nat (((w * 16 + x) * 16 + y) * 16 + z))
      | _ \<Rightarrow> None)"

definition unescape :: "code_unit \<Rightarrow> code_unit option" where
  "unescape e =
     (if e = cu (CHR 0x22) then Some (cu (CHR 0x22))
      else if e = cu (CHR 0x5C) then Some (cu (CHR 0x5C))
      else if e = cu (CHR ''/'') then Some (cu (CHR ''/''))
      else if e = cu (CHR ''b'') then Some (cu (CHR 0x08))
      else if e = cu (CHR ''f'') then Some (cu (CHR 0x0C))
      else if e = cu (CHR ''n'') then Some (cu (CHR 0x0A))
      else if e = cu (CHR ''r'') then Some (cu (CHR 0x0D))
      else if e = cu (CHR ''t'') then Some (cu (CHR 0x09))
      else None)"

text \<open>The rest of a string literal after its opening quote: the decoded string and what follows the closing quote.\<close>

fun lex_string :: "js_string \<Rightarrow> (js_string \<times> js_string) option" where
  "lex_string [] = None"
| "lex_string (c # cs) =
     (if c = cu (CHR 0x22) then Some ([], cs)
      else if c = cu (CHR 0x5C) then
        (case cs of
           [] \<Rightarrow> None
         | e # cs' \<Rightarrow>
             if e = cu (CHR ''u'') then
               (case cs' of
                  h1 # h2 # h3 # h4 # cs'' \<Rightarrow>
                    (case hex4 h1 h2 h3 h4 of
                       None \<Rightarrow> None
                     | Some x \<Rightarrow> map_option (\<lambda>(s, r). (x # s, r)) (lex_string cs''))
                | _ \<Rightarrow> None)
             else
               (case unescape e of
                  None \<Rightarrow> None
                | Some x \<Rightarrow> map_option (\<lambda>(s, r). (x # s, r)) (lex_string cs')))
      else if c < 0x20 then None
      else map_option (\<lambda>(s, r). (c # s, r)) (lex_string cs))"

text \<open>
  A number literal, \<open>-? (0 | [1-9][0-9]*) (. [0-9]+)? ([eE] [+-]? [0-9]+)?\<close>: \<open>lex_number\<close>
  returns the text of the literal and what follows it.
\<close>

definition lex_int :: "js_string \<Rightarrow> (js_string \<times> js_string) option" where
  "lex_int s =
     (case s of
        [] \<Rightarrow> None
      | c # r \<Rightarrow>
          if c = cu (CHR ''0'') then Some ([c], r)
          else if is_digit_unit c
            then Some (c # takeWhile is_digit_unit r, dropWhile is_digit_unit r)
          else None)"

definition lex_frac :: "js_string \<Rightarrow> (js_string \<times> js_string) option" where
  "lex_frac s =
     (case s of
        [] \<Rightarrow> Some ([], s)
      | c # r \<Rightarrow>
          if c = cu (CHR ''.'') then
            (if takeWhile is_digit_unit r = [] then None
             else Some (c # takeWhile is_digit_unit r, dropWhile is_digit_unit r))
          else Some ([], s))"

definition lex_sign :: "js_string \<Rightarrow> js_string \<times> js_string" where
  "lex_sign s =
     (case s of
        [] \<Rightarrow> ([], s)
      | g # r \<Rightarrow> if g = cu (CHR ''-'') \<or> g = cu (CHR ''+'') then ([g], r) else ([], s))"

definition lex_exp :: "js_string \<Rightarrow> (js_string \<times> js_string) option" where
  "lex_exp s =
     (case s of
        [] \<Rightarrow> Some ([], s)
      | c # r \<Rightarrow>
          if c = cu (CHR ''e'') \<or> c = cu (CHR ''E'') then
            (let (sg, r') = lex_sign r
             in if takeWhile is_digit_unit r' = [] then None
                else Some (c # sg @ takeWhile is_digit_unit r', dropWhile is_digit_unit r'))
          else Some ([], s))"

definition lex_minus :: "js_string \<Rightarrow> js_string \<times> js_string" where
  "lex_minus s =
     (case s of
        [] \<Rightarrow> ([], s)
      | c # r \<Rightarrow> if c = cu (CHR ''-'') then ([c], r) else ([], s))"

definition lex_number :: "js_string \<Rightarrow> (js_string \<times> js_string) option" where
  "lex_number s =
     (let (sg, s1) = lex_minus s
      in case lex_int s1 of
           None \<Rightarrow> None
         | Some (ip, s2) \<Rightarrow>
             (case lex_frac s2 of
                None \<Rightarrow> None
              | Some (fp, s3) \<Rightarrow>
                  (case lex_exp s3 of
                     None \<Rightarrow> None
                   | Some (ep, s4) \<Rightarrow> Some (sg @ ip @ fp @ ep, s4))))"

text \<open>
  \<open>number_reads_back nf x\<close>: the text printed for the number \<open>x\<close> is a number literal,
  and it reads as \<open>x\<close>. For JavaScript's doubles this holds of every finite number but
  \<open>-0\<close>: \<open>String(x)\<close> is a decimal literal that \<open>ToNumber\<close> reads as \<open>x\<close> again (the
  note on \<open>Number::toString\<close> in ECMAScript), while \<open>-0\<close> is printed as \<open>0\<close>, and \<open>NaN\<close>
  and the infinities as \<open>null\<close>.

  \<open>json_safe nf v\<close>: every number in \<open>v\<close> reads back, and every object in \<open>v\<close> is as
  JavaScript has it, with each key once and the keys in their order.
\<close>

definition number_reads_back :: "'n js_numbers \<Rightarrow> 'n \<Rightarrow> bool" where
  "number_reads_back nf x =
     (lex_number (number_text nf x) = Some (number_text nf x, [])
      \<and> number_value nf (number_text nf x) = x)"

fun json_safe :: "'n js_numbers \<Rightarrow> 'n json \<Rightarrow> bool" where
  "json_safe nf (JNum x) = number_reads_back nf x"
| "json_safe nf (JArr vs) = (\<forall>v \<in> set vs. json_safe nf v)"
| "json_safe nf (JObj kvs) =
     (distinct (map fst kvs) \<and> keys_ordered (map fst kvs)
      \<and> (\<forall>kv \<in> set kvs. json_safe nf (snd kv)))"
| "json_safe nf v = True"

definition is_space :: "code_unit \<Rightarrow> bool" where
  "is_space c =
     (c = cu (CHR '' '') \<or> c = cu (CHR 0x09) \<or> c = cu (CHR 0x0A) \<or> c = cu (CHR 0x0D))"

text \<open>
  Every lexer returns a rest that is shorter than its input, or no longer for the optional
  parts of a number: the termination of \<open>tokenize\<close> rests on it.
\<close>

lemma lex_string_length: "lex_string s = Some (t, r) \<Longrightarrow> length r < length s"
proof (induction s arbitrary: t r rule: lex_string.induct)
  case 1
  then show ?case by simp
next
  case (2 c cs)
  show ?case
  proof (cases "c = cu (CHR 0x22)")
    case True
    with 2 show ?thesis by simp
  next
    case nq: False
    show ?thesis
    proof (cases "c = cu (CHR 0x5C)")
      case True
      show ?thesis
      proof (cases cs)
        case Nil
        with 2(4) nq True show ?thesis by simp
      next
        case (Cons e cs')
        show ?thesis
        proof (cases "e = cu (CHR ''u'')")
          case eu: True
          from 2(4) nq True Cons eu obtain h1 h2 h3 h4 cs'' x s' where
            cs': "cs' = h1 # h2 # h3 # h4 # cs''" and hx: "hex4 h1 h2 h3 h4 = Some x"
            and rec: "lex_string cs'' = Some (s', r)"
            by (auto split: list.splits option.splits)
          from 2(1) [OF nq True Cons eu cs' refl refl refl hx rec]
          show ?thesis using Cons cs' by simp
        next
          case False
          from 2(4) nq True Cons False obtain x s' where
            ux: "unescape e = Some x" and rec: "lex_string cs' = Some (s', r)"
            by (auto split: option.splits)
          from 2(2) [OF nq True Cons False ux rec]
          show ?thesis using Cons by simp
        qed
      qed
    next
      case False
      with 2(4) nq obtain s' where
        ok: "\<not> c < 0x20" and rec: "lex_string cs = Some (s', r)"
        by (auto split: if_splits)
      from 2(3) [OF nq False ok rec] show ?thesis by simp
    qed
  qed
qed

lemma length_dropWhile_bound: "length (dropWhile P xs) \<le> length xs"
  by (induction xs) auto

lemma lex_int_length: "lex_int s = Some (t, r) \<Longrightarrow> length r < length s"
  using length_dropWhile_bound [of is_digit_unit "tl s"]
  by (auto simp: lex_int_def split: list.splits if_splits)

lemma lex_frac_length: "lex_frac s = Some (t, r) \<Longrightarrow> length r \<le> length s"
  using length_dropWhile_bound [of is_digit_unit "tl s"]
  by (auto simp: lex_frac_def split: list.splits if_splits)

lemma lex_sign_length: "length (snd (lex_sign s)) \<le> length s"
  by (auto simp: lex_sign_def split: list.splits)

lemma lex_exp_length: "lex_exp s = Some (t, r) \<Longrightarrow> length r \<le> length s"
proof (cases s)
  case Nil
  then show "lex_exp s = Some (t, r) \<Longrightarrow> length r \<le> length s"
    by (simp add: lex_exp_def)
next
  case (Cons c s')
  assume a: "lex_exp s = Some (t, r)"
  show "length r \<le> length s"
  proof (cases "c = cu (CHR ''e'') \<or> c = cu (CHR ''E'')")
    case True
    with a Cons have "r = dropWhile is_digit_unit (snd (lex_sign s'))"
      by (auto simp: lex_exp_def case_prod_beta Let_def split: if_splits)
    with length_dropWhile_bound [of is_digit_unit "snd (lex_sign s')"] lex_sign_length [of s']
    show ?thesis by (simp add: Cons)
  next
    case False
    with a Cons show ?thesis by (auto simp: lex_exp_def)
  qed
qed

lemma lex_minus_length: "length (snd (lex_minus s)) \<le> length s"
  by (auto simp: lex_minus_def split: list.splits)

lemma lex_number_length:
  assumes "lex_number s = Some (v, r)"
  shows "length r < length s"
proof -
  from assms obtain ip s2 where a: "lex_int (snd (lex_minus s)) = Some (ip, s2)"
    unfolding lex_number_def Let_def case_prod_beta
    by (cases "lex_int (snd (lex_minus s))") auto
  from assms a obtain fp s3 where b: "lex_frac s2 = Some (fp, s3)"
    unfolding lex_number_def Let_def case_prod_beta
    by (cases "lex_frac s2") auto
  from assms a b obtain ep where c: "lex_exp s3 = Some (ep, r)"
    unfolding lex_number_def Let_def case_prod_beta
    by (cases "lex_exp s3") auto
  from lex_int_length [OF a] lex_frac_length [OF b] lex_exp_length [OF c] lex_minus_length [of s]
  show ?thesis by simp
qed

function tokenize :: "'n js_numbers \<Rightarrow> js_string \<Rightarrow> 'n token list option" where
  "tokenize nf [] = Some []"
| "tokenize nf (c # cs) =
     (if is_space c then tokenize nf cs
      else if c = cu (CHR ''{'') then map_option ((#) TLBrace) (tokenize nf cs)
      else if c = cu (CHR ''}'') then map_option ((#) TRBrace) (tokenize nf cs)
      else if c = cu (CHR ''['') then map_option ((#) TLBrack) (tokenize nf cs)
      else if c = cu (CHR '']'') then map_option ((#) TRBrack) (tokenize nf cs)
      else if c = cu (CHR '','') then map_option ((#) TComma) (tokenize nf cs)
      else if c = cu (CHR '':'') then map_option ((#) TColon) (tokenize nf cs)
      else if c = cu (CHR 0x22) then
        (case lex_string cs of
           None \<Rightarrow> None
         | Some (s, r) \<Rightarrow> map_option ((#) (TScalar (JStr s))) (tokenize nf r))
      else if c = cu (CHR ''-'') \<or> is_digit_unit c then
        (case lex_number (c # cs) of
           None \<Rightarrow> None
         | Some (lit, r) \<Rightarrow>
             map_option ((#) (TScalar (JNum (number_value nf lit)))) (tokenize nf r))
      else if prefix (js_lit ''true'') (c # cs) then
        map_option ((#) (TScalar (JBool True))) (tokenize nf (drop 3 cs))
      else if prefix (js_lit ''false'') (c # cs) then
        map_option ((#) (TScalar (JBool False))) (tokenize nf (drop 4 cs))
      else if prefix (js_lit ''null'') (c # cs) then
        map_option ((#) (TScalar JNull)) (tokenize nf (drop 3 cs))
      else None)"
  by pat_completeness auto

termination
proof (relation "measure (\<lambda>(nf, s). length s)", goal_cases)
  case (9 nf c cs x2 x y)
  then show ?case using lex_string_length [of cs x y] by simp
next
  case (10 nf c cs x2 x y)
  then show ?case using lex_number_length [of "c # cs" x y] by simp
qed simp_all

declare tokenize.simps [simp del]

text \<open>
  The machine: \<open>frame\<close> is an open array with its elements so far, or an open object with
  its properties so far and the key whose value is being read; \<open>mode\<close> is what the grammar
  allows next. A repeated key overwrites the earlier value (\<open>js_set\<close>).
\<close>

datatype 'n frame = InArr "'n json list" | InObj "(js_string \<times> 'n json) list" js_string

datatype 'n mode =
    Value
  | ArrStart
  | ObjStart
  | Key "(js_string \<times> 'n json) list"
  | Colon "(js_string \<times> 'n json) list" js_string
  | After "'n json"

fun value_start :: "'n token \<Rightarrow> 'n frame list \<Rightarrow> ('n mode \<times> 'n frame list) option" where
  "value_start (TScalar v) st = Some (After v, st)"
| "value_start TLBrack st = Some (ArrStart, st)"
| "value_start TLBrace st = Some (ObjStart, st)"
| "value_start _ st = None"

fun key_start ::
    "(js_string \<times> 'n json) list \<Rightarrow> 'n token \<Rightarrow> 'n frame list
       \<Rightarrow> ('n mode \<times> 'n frame list) option" where
  "key_start acc (TScalar (JStr k)) st = Some (Colon acc k, st)"
| "key_start acc _ st = None"

fun step :: "'n token \<Rightarrow> 'n mode \<times> 'n frame list \<Rightarrow> ('n mode \<times> 'n frame list) option" where
  "step t (Value, st) = value_start t st"
| "step t (ArrStart, st) =
     (if t = TRBrack then Some (After (JArr []), st) else value_start t (InArr [] # st))"
| "step t (ObjStart, st) =
     (if t = TRBrace then Some (After (JObj []), st) else key_start [] t st)"
| "step t (Key acc, st) = key_start acc t st"
| "step t (Colon acc k, st) = (if t = TColon then Some (Value, InObj acc k # st) else None)"
| "step t (After v, []) = None"
| "step t (After v, InArr acc # st) =
     (if t = TComma then Some (Value, InArr (acc @ [v]) # st)
      else if t = TRBrack then Some (After (JArr (acc @ [v])), st)
      else None)"
| "step t (After v, InObj acc k # st) =
     (if t = TComma then Some (Key (js_set acc k v), st)
      else if t = TRBrace then Some (After (JObj (js_set acc k v)), st)
      else None)"

fun parse_tokens :: "'n token list \<Rightarrow> 'n mode \<times> 'n frame list \<Rightarrow> 'n json option" where
  "parse_tokens [] (After v, []) = Some v"
| "parse_tokens [] _ = None"
| "parse_tokens (t # ts) s = (case step t s of None \<Rightarrow> None | Some s' \<Rightarrow> parse_tokens ts s')"

definition JSON_parse :: "'n js_numbers \<Rightarrow> js_string \<Rightarrow> js_error + 'n json" where
  "JSON_parse nf text =
     (case tokenize nf text of
        None \<Rightarrow> Inl SyntaxError
      | Some ts \<Rightarrow>
          (case parse_tokens ts (Value, []) of
             None \<Rightarrow> Inl SyntaxError
           | Some v \<Rightarrow> Inr v))"

subsection \<open>A number system with fractions and exponents\<close>

text \<open>
  \<open>decimal_numbers\<close>: the numbers are \<open>NaN\<close>, the infinities, and the finite numbers
  \<open>Finite neg (Decimal s n)\<close>, a sign and the digits \<open>s\<close> and position \<open>n\<close> of the decimal
  point through which \<open>Number::toString\<close> reads a number (the magnitude is \<open>s * 10^(n-k)\<close>
  for the \<open>k\<close> digits of \<open>s\<close>): \<open>0.5\<close> is \<open>Decimal 5 0\<close>, \<open>300.5\<close> is \<open>Decimal 3005 3\<close>,
  \<open>250\<close> is \<open>Decimal 25 3\<close>. A finite number has one such form, \<open>finite_number\<close>: \<open>s\<close> has
  no trailing zero, and zero is \<open>Finite False (Decimal 0 0)\<close>; \<open>-0\<close>, which \<open>===\<close> does not
  tell apart from \<open>0\<close>, has no form of its own.

  \<open>number_to_text x\<close> is \<open>String(x)\<close> for a finite \<open>x\<close> and \<open>null\<close> otherwise.
  \<open>literal_value lit\<close> is the decimal that the literal \<open>lit\<close> denotes, cut into sign,
  integer part, fraction and exponent as \<open>lex_number\<close> cuts it, and brought into that
  form. JavaScript rounds the decimal to the nearest double and prints the shortest decimal
  that reads as this double; for a literal of at most 15 significant digits and a magnitude
  between \<open>1e-300\<close> and \<open>1e300\<close> that is the decimal of the literal itself. A literal
  outside this range is kept as it is here, unrounded.
\<close>

datatype json_number = Finite bool js_number | NaN | Infinity bool

definition number_to_text :: "json_number \<Rightarrow> js_string" where
  "number_to_text x =
     (case x of
        Finite neg (Decimal s n) \<Rightarrow>
          js_lit ((if neg \<and> s \<noteq> 0 then ''-'' else []) @ Number_toString (Decimal s n))
      | _ \<Rightarrow> js_lit ''null'')"

definition strip_zeros :: "js_string \<Rightarrow> js_string" where
  "strip_zeros ds = rev (dropWhile (\<lambda>c. c = cu (CHR ''0'')) (rev ds))"

definition decimal_value :: "bool \<Rightarrow> js_string \<Rightarrow> js_string \<Rightarrow> int \<Rightarrow> json_number" where
  "decimal_value neg ip fp ex =
     (let ds = strip_zeros (ip @ fp);
          s = units_to_nat ds
      in if s = 0 then Finite False (Decimal 0 0)
         else Finite neg
                (Decimal s (int (length (nat_to_string s)) + ex - int (length fp)
                              + int (length (ip @ fp) - length ds))))"

definition exponent_value :: "js_string \<Rightarrow> int" where
  "exponent_value ep =
     (case ep of
        [] \<Rightarrow> 0
      | e # r \<Rightarrow>
          (let (g, ds) = lex_sign r
           in if g = [cu (CHR ''-'')] then - int (units_to_nat ds) else int (units_to_nat ds)))"

definition literal_value :: "js_string \<Rightarrow> json_number" where
  "literal_value lit =
     (let (sg, s1) = lex_minus lit
      in case lex_int s1 of
           None \<Rightarrow> NaN
         | Some (ip, s2) \<Rightarrow>
             (case lex_frac s2 of
                None \<Rightarrow> NaN
              | Some (fp, s3) \<Rightarrow>
                  (case lex_exp s3 of
                     None \<Rightarrow> NaN
                   | Some (ep, s4) \<Rightarrow>
                       decimal_value (sg \<noteq> []) ip (drop 1 fp) (exponent_value ep))))"

definition finite_number :: "json_number \<Rightarrow> bool" where
  "finite_number x =
     (case x of
        Finite neg (Decimal s n) \<Rightarrow> if s = 0 then \<not> neg \<and> n = 0 else s mod 10 \<noteq> 0
      | _ \<Rightarrow> False)"

definition decimal_numbers :: "json_number js_numbers" where
  "decimal_numbers = \<lparr>number_text = number_to_text, number_value = literal_value\<rparr>"

section \<open>The environment of 3p-frame.js\<close>

text \<open>
  What the file imports and only reads: \<open>getMode()\<close> of \<open>./mode\<close>, \<open>urls\<close> of \<open>./config\<close>,
  \<open>parseUrl\<close> of \<open>./url\<close> with the two fields read here, and the test behind
  \<open>assertHttpsUrl\<close>. None of them is defined in this file; they are parameters.
\<close>

record js_mode =
  localDev :: bool
  test :: bool
  minified :: bool

record js_urls =
  thirdParty :: string
  thirdPartyFrameHost :: string
  urls_localDev :: bool

record parsed_url =
  hostname :: string
  origin :: string

record config =
  getMode :: js_mode
  urls :: js_urls
  parseUrl :: "string \<Rightarrow> parsed_url"
  isSecureUrl :: "string \<Rightarrow> bool"

text \<open>
  A window, with what the file reads and writes of it. Windows are held in a store and
  named by their index there, so that \<open>win != win.parent\<close> compares identities.
  \<open>parent\<close> is \<open>None\<close> for \<open>null\<close>; \<open>meta_content\<close> is the \<open>content\<close> attribute of the
  document's \<open>meta[name="amp-3p-iframe-src"]\<close>, \<open>None\<close> when the document has no such
  element; \<open>bootstrapBaseUrl\<close> is the cache property, \<open>None\<close> for \<open>undefined\<close>.
  \<open>crypto_getRandomValues\<close> is \<open>None\<close> when \<open>win.crypto\<close> or its \<open>getRandomValues\<close> is
  missing, otherwise it gives the two 32-bit values that the \<open>i\<close>-th call writes into the
  array; \<open>Math_random i\<close> is what the \<open>i\<close>-th call of \<open>win.Math.random()\<close> returns;
  \<open>random_calls\<close> counts the calls made so far.
\<close>

record location =
  href :: string
  port :: string

record window =
  parent :: "nat option"
  location :: location
  meta_content :: "string option"
  bootstrapBaseUrl :: "string option"
  crypto_getRandomValues :: "(nat \<Rightarrow> 32 word \<times> 32 word) option"
  Math_random :: "nat \<Rightarrow> js_number"
  random_calls :: nat

text \<open>The mutable state: the windows, and the module variable \<open>overrideBootstrapBaseUrl\<close>.\<close>

record state =
  windows :: "nat \<Rightarrow> window"
  overrideBootstrapBaseUrl :: "string option"

text \<open>
  The truth value of a string that may be \<open>undefined\<close> or \<open>null\<close>, as \<open>if (v)\<close> and
  \<open>v || w\<close> read it: the string itself when it is not empty.
\<close>

definition truthy :: "'a list option \<Rightarrow> 'a list option" where
  "truthy v = (case v of None \<Rightarrow> None | Some s \<Rightarrow> if s = [] then None else Some s)"

section \<open>The bootstrap URL\<close>

definition getRandom :: "state \<Rightarrow> nat \<Rightarrow> string \<times> state" where
  "getRandom st w =
     (let win = windows st w;
          i = random_calls win;
          st' = st\<lparr>windows := (windows st)(w := win\<lparr>random_calls := i + 1\<rparr>)\<rparr>
      in case crypto_getRandomValues win of
           Some fill \<Rightarrow>
             (let uint32array = fill i
              in (nat_to_string (unat (fst uint32array)) @ nat_to_string (unat (snd uint32array)),
                  st'))
         | None \<Rightarrow> (substr (Number_toString (Math_random win i)) 2 @ ''0'', st'))"

definition getSubDomain :: "state \<Rightarrow> nat \<Rightarrow> string \<times> state" where
  "getSubDomain st w = (let (rand, st') = getRandom st w in (''d-'' @ rand, st'))"

definition getAdsLocalhost :: "config \<Rightarrow> state \<Rightarrow> nat \<Rightarrow> js_error + string" where
  "getAdsLocalhost cfg st w =
     (if urls_localDev (urls cfg) then Inr (''//'' @ thirdPartyFrameHost (urls cfg))
      else if port (location (windows st w)) \<noteq> []
        then Inr (''http://ads.localhost:'' @ port (location (windows st w)))
      else
        (case parent (windows st w) of
           None \<Rightarrow> Inl TypeError
         | Some p \<Rightarrow> Inr (''http://ads.localhost:'' @ port (location (windows st p)))))"

definition getDefaultBootstrapBaseUrl ::
    "config \<Rightarrow> state \<Rightarrow> nat \<Rightarrow> string option \<Rightarrow> (js_error + string) \<times> state" where
  "getDefaultBootstrapBaseUrl cfg st parentWindow opt_srcFileBasename =
     (let srcFileBasename =
            (case truthy opt_srcFileBasename of Some b \<Rightarrow> b | None \<Rightarrow> ''frame'')
      in if localDev (getMode cfg) \<or> test (getMode cfg) then
           (case truthy (overrideBootstrapBaseUrl st) of
              Some url \<Rightarrow> (Inr url, st)
            | None \<Rightarrow>
                (case getAdsLocalhost cfg st parentWindow of
                   Inl e \<Rightarrow> (Inl e, st)
                 | Inr host \<Rightarrow>
                     (Inr (host @ ''/dist.3p/''
                           @ (if minified (getMode cfg)
                              then ''$internalRuntimeVersion$/'' @ srcFileBasename
                              else ''current/'' @ srcFileBasename @ ''.max'')
                           @ ''.html''), st)))
         else
           (let (sub, st') = getSubDomain st parentWindow
            in (Inr (''https://'' @ sub @ ''.'' @ thirdPartyFrameHost (urls cfg)
                     @ ''/$internalRuntimeVersion$/'' @ srcFileBasename @ ''.html''), st')))"

text \<open>
  Modelled from the spec: \<open>assertHttpsUrl\<close> of \<open>./url\<close>, which is not in this file. The
  spec says "assert the URL scheme is HTTPS (fail otherwise)"; the call site uses what it
  returns as the URL. The test itself is the parameter \<open>isSecureUrl\<close>.
\<close>

definition assertHttpsUrl :: "config \<Rightarrow> string \<Rightarrow> js_error + string" where
  "assertHttpsUrl cfg url = (if isSecureUrl cfg url then Inr url else Inl HttpsAssertion)"

text \<open>
  Modelled from the spec: \<open>user().assert\<close> of \<open>./log\<close>, which is not in this file. The spec
  calls its failure a configuration error, "surfaced to the caller as a thrown assertion
  failure": a false condition is the result \<open>Inl (UserAssertion message)\<close>, with the
  message as it is written in the call.
\<close>

definition getCustomBootstrapBaseUrl ::
    "config \<Rightarrow> state \<Rightarrow> nat \<Rightarrow> bool \<Rightarrow> js_error + string option" where
  "getCustomBootstrapBaseUrl cfg st parentWindow opt_strictForUnitTest =
     (case meta_content (windows st parentWindow) of
        None \<Rightarrow> Inr None
      | Some content \<Rightarrow>
          (case assertHttpsUrl cfg content of
             Inl e \<Rightarrow> Inl e
           | Inr url \<Rightarrow>
               if indexOf url ''?'' \<noteq> None
               then Inl (UserAssertion
                 ''3p iframe url must not include query string %s in element %s.'')
               else
                 (let parsed = parseUrl cfg url
                  in if (hostname parsed = ''localhost'' \<and> \<not> opt_strictForUnitTest)
                        \<or> origin parsed
                            \<noteq> origin (parseUrl cfg (href (location (windows st parentWindow))))
                     then Inr (Some (url @ ''?$internalRuntimeVersion$''))
                     else Inl (UserAssertion
                       ''3p iframe url must not be on the same origin as the current document %s (%s) in element %s. See https://github.com/ampproject/amphtml/blob/master/spec/amp-iframe-origin-policy.md for details.''))))"

definition getBootstrapBaseUrl ::
    "config \<Rightarrow> state \<Rightarrow> nat \<Rightarrow> bool \<Rightarrow> (js_error + string) \<times> state" where
  "getBootstrapBaseUrl cfg st parentWindow opt_strictForUnitTest =
     (case truthy (bootstrapBaseUrl (windows st parentWindow)) of
        Some cached \<Rightarrow> (Inr cached, st)
      | None \<Rightarrow>
          (case getCustomBootstrapBaseUrl cfg st parentWindow opt_strictForUnitTest of
             Inl e \<Rightarrow> (Inl e, st)
           | Inr custom \<Rightarrow>
               (case (case truthy custom of
                        Some url \<Rightarrow> (Inr url, st)
                      | None \<Rightarrow> getDefaultBootstrapBaseUrl cfg st parentWindow None) of
                  (Inl e, st') \<Rightarrow> (Inl e, st')
                | (Inr url, st') \<Rightarrow>
                    (Inr url,
                     st'\<lparr>windows := (windows st')
                          (parentWindow := (windows st' parentWindow)\<lparr>bootstrapBaseUrl := Some url\<rparr>)\<rparr>))))"

definition setDefaultBootstrapBaseUrlForTesting :: "state \<Rightarrow> string option \<Rightarrow> state" where
  "setDefaultBootstrapBaseUrlForTesting st url = st\<lparr>overrideBootstrapBaseUrl := url\<rparr>"

definition resetBootstrapBaseUrlForTesting :: "state \<Rightarrow> nat \<Rightarrow> state" where
  "resetBootstrapBaseUrlForTesting st win =
     st\<lparr>windows := (windows st)(win := (windows st win)\<lparr>bootstrapBaseUrl := None\<rparr>)\<rparr>"

section \<open>The sentinel\<close>

text \<open>
  The loop of \<open>generateSentinel\<close>:
  \<open>for (win = parentWindow; win && win != win.parent; win = win.parent) windowDepth++\<close>.
  On a chain of parents that never reaches a window which is its own parent, nor
  \<open>null\<close>, the loop does not end: the result is \<open>None\<close>.
\<close>

partial_function (option) windowDepth_loop :: "state \<Rightarrow> nat option \<Rightarrow> nat \<Rightarrow> nat option" where
  "windowDepth_loop st win windowDepth =
     (case win of
        None \<Rightarrow> Some windowDepth
      | Some w \<Rightarrow>
          if parent (windows st w) = Some w then Some windowDepth
          else windowDepth_loop st (parent (windows st w)) (windowDepth + 1))"

definition generateSentinel :: "state \<Rightarrow> nat \<Rightarrow> (string \<times> state) option" where
  "generateSentinel st parentWindow =
     (case windowDepth_loop st (Some parentWindow) 0 of
        None \<Rightarrow> None
      | Some windowDepth \<Rightarrow>
          (let (rand, st') = getRandom st parentWindow
           in Some (nat_to_string windowDepth @ ''-'' @ rand, st')))"

section \<open>Messages\<close>

text \<open>
  The codec works on strings of 16-bit code units; \<open>nf\<close> is the number system of
  \<open>JSON.stringify\<close> and \<open>JSON.parse\<close>.
\<close>

definition AMP_MESSAGE_PREFIX :: js_string where
  "AMP_MESSAGE_PREFIX = js_lit ''amp-''"

definition MessageType :: "js_string list" where
  "MessageType =
     map js_lit
       [''send-embed-state'', ''embed-state'', ''send-embed-context'', ''embed-context'',
        ''send-intersections'', ''intersection'', ''embed-size'', ''embed-size-changed'',
        ''embed-size-denied'', ''send-positions'', ''position'']"

text \<open>
  \<open>serializeMessage\<close> writes into the object it is given: the model returns the object
  as it is after the call, next to the string. An omitted \<open>data\<close> is \<open>None\<close> here and a
  fresh empty object there; an omitted or \<open>null\<close> \<open>rtvVersion\<close> is \<open>None\<close>.
\<close>

definition serializeMessage ::
    "'n js_numbers \<Rightarrow> js_string \<Rightarrow> js_string \<Rightarrow> (js_string \<times> 'n json) list option
       \<Rightarrow> js_string option \<Rightarrow> js_string \<times> (js_string \<times> 'n json) list" where
  "serializeMessage nf type sentinel data rtvVersion =
     (let message = (case data of None \<Rightarrow> [] | Some d \<Rightarrow> d);
          message = js_set message (js_lit ''type'') (JStr type);
          message = js_set message (js_lit ''sentinel'') (JStr sentinel)
      in (AMP_MESSAGE_PREFIX @ (case truthy rtvVersion of Some v \<Rightarrow> v | None \<Rightarrow> [])
            @ JSON_stringify nf (JObj message),
          message))"

definition isAmpMessage :: "'a js_value \<Rightarrow> bool" where
  "isAmpMessage message =
     (case message of
        JS_string s \<Rightarrow> indexOf s AMP_MESSAGE_PREFIX = Some 0
      | JS_other _ \<Rightarrow> False)"

text \<open>
  \<open>deserializeMessage\<close> returns \<open>null\<close> (\<open>JNull\<close>) or what \<open>JSON.parse\<close> returned; the
  exception of \<open>JSON.parse\<close> is caught.

  Modelled from the spec: \<open>dev().error\<close> of \<open>./log\<close>, which is not in this file. The spec
  says "log a parse failure (log, do not throw)": the call has no part in the result and
  is left out.
\<close>

definition deserializeMessage :: "'n js_numbers \<Rightarrow> 'a js_value \<Rightarrow> js_error + 'n json" where
  "deserializeMessage nf message =
     (if \<not> isAmpMessage message then Inr JNull
      else
        (case message of
           JS_other _ \<Rightarrow> Inr JNull
         | JS_string s \<Rightarrow>
             (case indexOf s (js_lit ''{'') of
                None \<Rightarrow> Inr JNull
              | Some startPos \<Rightarrow>
                  (case JSON_parse nf (substr s startPos) of
                     Inr v \<Rightarrow> Inr v
                   | Inl e \<Rightarrow> Inr JNull))))"

section \<open>Auxiliary notions and examples\<close>

text \<open>\<open>delim r\<close>: the text \<open>r\<close> after a value is empty or starts with a comma or a closing bracket.\<close>

definition delim :: "js_string \<Rightarrow> bool" where
  "delim r =
     (case r of
        [] \<Rightarrow> True
      | c # _ \<Rightarrow> c = cu (CHR '','') \<or> c = cu (CHR '']'') \<or> c = cu (CHR ''}''))"

text \<open>The tokens of the text that \<open>JSON_stringify\<close> prints for a value.\<close>

fun tokens_of :: "'n json \<Rightarrow> 'n token list" where
  "tokens_of (JArr vs) = TLBrack # join [TComma] (map tokens_of vs) @ [TRBrack]"
| "tokens_of (JObj kvs) =
     TLBrace # join [TComma] (map (\<lambda>(k, v). TScalar (JStr k) # TColon # tokens_of v) kvs) @ [TRBrace]"
| "tokens_of v = [TScalar v]"

text \<open>
  The parts of a number literal after its integer part: the fraction with digits \<open>fp\<close>,
  and the exponent with sign \<open>g\<close> and digits \<open>ed\<close>, each absent when it has no digit.
  \<open>no_digit_next r\<close>: the text \<open>r\<close> does not go on with a digit.
\<close>

definition frac_text :: "js_string \<Rightarrow> js_string" where
  "frac_text fp = (if fp = [] then [] else cu (CHR ''.'') # fp)"

definition exp_text :: "js_string \<Rightarrow> js_string \<Rightarrow> js_string" where
  "exp_text g ed = (if ed = [] then [] else cu (CHR ''e'') # g @ ed)"

definition no_digit_next :: "js_string \<Rightarrow> bool" where
  "no_digit_next r = (case r of [] \<Rightarrow> True | c # _ \<Rightarrow> \<not> is_digit_unit c)"

text \<open>
  A payload with a fraction, a number below one and a negative number:
  \<open>{width: 300.5, ratio: 0.5, height: -250}\<close>.
\<close>

definition example_data :: "(js_string \<times> json_number json) list" where
  "example_data =
     [(js_lit ''width'', JNum (Finite False (Decimal 3005 3))),
      (js_lit ''ratio'', JNum (Finite False (Decimal 5 0))),
      (js_lit ''height'', JNum (Finite True (Decimal 25 3)))]"

text \<open>
  Concrete surroundings for the examples: a production configuration whose \<open>parseUrl\<close>
  knows two origins, and a top-level window served from \<open>localhost:8000\<close> with a
  cryptographic random source.
\<close>

definition example_parseUrl :: "string \<Rightarrow> parsed_url" where
  "example_parseUrl u =
     (if prefix ''https://localhost:8000/'' u
      then \<lparr>hostname = ''localhost'', origin = ''https://localhost:8000''\<rparr>
      else if prefix ''https://cdn.example.com/'' u
      then \<lparr>hostname = ''cdn.example.com'', origin = ''https://cdn.example.com''\<rparr>
      else \<lparr>hostname = [], origin = u\<rparr>)"

definition example_config :: config where
  "example_config =
     \<lparr>getMode = \<lparr>localDev = False, test = False, minified = False\<rparr>,
      urls = \<lparr>thirdParty = ''https://3p.ampproject.net'',
              thirdPartyFrameHost = ''ampproject.net'', urls_localDev = False\<rparr>,
      parseUrl = example_parseUrl,
      isSecureUrl = prefix ''https://''\<rparr>"

definition example_window :: window where
  "example_window =
     \<lparr>parent = Some 0,
      location = \<lparr>href = ''https://localhost:8000/doc.html'', port = ''8000''\<rparr>,
      meta_content = None,
      bootstrapBaseUrl = None,
      crypto_getRandomValues = Some (\<lambda>i. (of_nat (12 + i), of_nat (34 + i))),
      Math_random = (\<lambda>i. Decimal 5 0),
      random_calls = 0\<rparr>"

definition example_state :: state where
  "example_state = \<lparr>windows = (\<lambda>i. example_window), overrideBootstrapBaseUrl = None\<rparr>"

definition with_meta :: "state \<Rightarrow> nat \<Rightarrow> string \<Rightarrow> state" where
  "with_meta st w content =
     st\<lparr>windows := (windows st)(w := (windows st w)\<lparr>meta_content := Some content\<rparr>)\<rparr>"

definition localDev_config :: "bool \<Rightarrow> config" where
  "localDev_config is_minified =
     example_config\<lparr>getMode := \<lparr>localDev = True, test = False, minified = is_minified\<rparr>\<rparr>"

definition example_url1 :: string where
  "example_url1 = ''https://d-1234.ampproject.net/$internalRuntimeVersion$/frame.html''"

definition example_url2 :: string where
  "example_url2 = ''https://d-1335.ampproject.net/$internalRuntimeVersion$/frame.html''"

definition example_state1 :: state where
  "example_state1 =
     example_state\<lparr>windows := (windows example_state)
       (0 := example_window\<lparr>bootstrapBaseUrl := Some example_url1, random_calls := 1\<rparr>)\<rparr>"

text \<open>
  A document that declares a bootstrap URL on its own origin, with host \<open>localhost\<close>.
\<close>

definition localhost_state :: state where
  "localhost_state = with_meta example_state 0 ''https://localhost:8000/frame.html''"

definition localhost_url :: string where
  "localhost_url = ''https://localhost:8000/frame.html?$internalRuntimeVersion$''"

text \<open>
  The depth in the words of the specification: the number of ancestor frames from the
  window up to, and not counting, the top window, which is the window that is its own
  parent. \<open>depth_below_top st w n\<close>: the top window is reached from \<open>w\<close> in exactly \<open>n\<close>
  steps to the parent.
\<close>

fun depth_below_top :: "state \<Rightarrow> nat \<Rightarrow> nat \<Rightarrow> bool" where
  "depth_below_top st w 0 = (parent (windows st w) = Some w)"
| "depth_below_top st w (Suc n) =
     (case parent (windows st w) of
        None \<Rightarrow> False
      | Some p \<Rightarrow> p \<noteq> w \<and> depth_below_top st p n)"

definition nested_state :: state where
  "nested_state =
     \<lparr>windows = (\<lambda>i. example_window\<lparr>parent := Some (i - 1)\<rparr>), overrideBootstrapBaseUrl = None\<rparr>"

text \<open>
  A window without \<open>crypto.getRandomValues\<close> whose \<open>Math.random()\<close> returns \<open>2^-20\<close>, that
  is \<open>9.5367431640625e-7\<close>: the digits \<open>95367431640625\<close> with the decimal point six places
  to the left of them.
\<close>

definition fallback_state :: state where
  "fallback_state =
     \<lparr>windows = (\<lambda>i. example_window\<lparr>crypto_getRandomValues := None,
                                      Math_random := (\<lambda>i. Decimal 95367431640625 (- 6))\<rparr>),
      overrideBootstrapBaseUrl = None\<rparr>"

section \<open>Lemmas on strings and numerals\<close>

lemma indexOf_zero_iff: "indexOf s needle = Some 0 \<longleftrightarrow> prefix needle s"
  by (cases s) auto

lemma indexOf_None_iff: "indexOf s [c] = None \<longleftrightarrow> c \<notin> set s"
  by (induction s) auto

lemma indexOf_skip:
  "c \<notin> set p \<Longrightarrow> indexOf (p @ c # r) [c] = Some (length p)"
  by (induction p) auto

lemma less_10_cases:
  "d < 10 \<Longrightarrow> d = 0 \<or> d = 1 \<or> d = 2 \<or> d = 3 \<or> d = 4 \<or> d = 5 \<or> d = 6 \<or> d = 7 \<or> d = 8 \<or> d = (9::nat)"
  by arith

lemma of_char_digit_char: "d < 10 \<Longrightarrow> (of_char (digit_char d) :: nat) = 48 + d"
  by (drule less_10_cases) (auto simp: digit_char_def)

lemma is_digit_digit_char: "d < 10 \<Longrightarrow> is_digit (digit_char d)"
  by (simp add: is_digit_def of_char_digit_char)

lemma nat_to_string_digits: "list_all is_digit (nat_to_string n)"
proof (induction n rule: nat_to_string.induct)
  case (1 n)
  show ?case
  proof (cases "n < 10")
    case True
    then show ?thesis by (simp add: nat_to_string.simps [of n] is_digit_digit_char)
  next
    case False
    with 1 show ?thesis by (simp add: nat_to_string.simps [of n] is_digit_digit_char)
  qed
qed

lemma nat_to_string_not_Nil: "nat_to_string n \<noteq> []"
  by (simp add: nat_to_string.simps [of n])

section \<open>JSON.parse reads back what JSON.stringify prints\<close>

lemma delim_simps:
  "delim (cu (CHR '','') # r)" "delim (cu (CHR '']'') # r)" "delim (cu (CHR ''}'') # r)" "delim []"
  by (simp_all add: delim_def)

lemma delim_cases:
  assumes "delim r"
  obtains "r = []" | c r' where "r = c # r'" "\<not> is_digit_unit c" "c \<noteq> cu (CHR ''.'')"
    "c \<noteq> cu (CHR ''e'')" "c \<noteq> cu (CHR ''E'')" "c \<noteq> cu (CHR ''-'')" "c \<noteq> cu (CHR ''+'')"
proof (cases r)
  case Nil
  then show ?thesis using that(1) by simp
next
  case (Cons c r')
  with assms have "c = cu (CHR '','') \<or> c = cu (CHR '']'') \<or> c = cu (CHR ''}'')"
    by (simp add: delim_def)
  then have "\<not> is_digit_unit c" "c \<noteq> cu (CHR ''.'')"
    "c \<noteq> cu (CHR ''e'')" "c \<noteq> cu (CHR ''E'')" "c \<noteq> cu (CHR ''-'')" "c \<noteq> cu (CHR ''+'')"
    by (auto simp: cu_def is_digit_unit_def)
  with Cons show ?thesis using that(2) by blast
qed

lemma takeWhile_digits_delim:
  assumes "delim r"
  shows "takeWhile is_digit_unit (xs @ r) = takeWhile is_digit_unit xs"
    and "dropWhile is_digit_unit (xs @ r) = dropWhile is_digit_unit xs @ r"
  using assms by (induction xs) (auto elim: delim_cases)

lemma lex_int_append:
  assumes "lex_int s = Some (ip, s2)" "delim r"
  shows "lex_int (s @ r) = Some (ip, s2 @ r)"
  using assms(1) takeWhile_digits_delim [OF assms(2)]
  by (cases s) (auto simp: lex_int_def split: if_splits)

lemma lex_frac_append:
  assumes "lex_frac s = Some (fp, s3)" "delim r"
  shows "lex_frac (s @ r) = Some (fp, s3 @ r)"
proof (cases s)
  case Nil
  with assms(1) have "fp = []" "s3 = []" by (simp_all add: lex_frac_def)
  with Nil assms(2) show ?thesis
    by (auto simp: lex_frac_def elim: delim_cases)
next
  case (Cons c s')
  with assms(1) takeWhile_digits_delim [OF assms(2)] show ?thesis
    by (auto simp: lex_frac_def split: if_splits)
qed

lemma lex_sign_append:
  assumes "delim r"
  shows "lex_sign (s @ r) = (fst (lex_sign s), snd (lex_sign s) @ r)"
  using assms by (cases s) (auto simp: lex_sign_def elim: delim_cases)

lemma lex_exp_append:
  assumes "lex_exp s = Some (ep, s4)" "delim r"
  shows "lex_exp (s @ r) = Some (ep, s4 @ r)"
proof (cases s)
  case Nil
  with assms(1) have "ep = []" "s4 = []" by (simp_all add: lex_exp_def)
  with Nil assms(2) show ?thesis
    by (auto simp: lex_exp_def elim: delim_cases)
next
  case (Cons c s')
  with assms(1) takeWhile_digits_delim [OF assms(2)] lex_sign_append [OF assms(2), of s']
  show ?thesis
    by (auto simp: lex_exp_def Let_def case_prod_beta split: if_splits)
qed

lemma lex_minus_append:
  assumes "s \<noteq> []"
  shows "lex_minus (s @ r) = (fst (lex_minus s), snd (lex_minus s) @ r)"
  using assms by (cases s) (auto simp: lex_minus_def)

lemma lex_number_not_Nil: "lex_number s = Some (t, r) \<Longrightarrow> s \<noteq> []"
  by (auto simp: lex_number_def lex_minus_def lex_int_def)

lemma lex_number_append:
  assumes "lex_number s = Some (lit, s4)" "delim r"
  shows "lex_number (s @ r) = Some (lit, s4 @ r)"
proof -
  from assms(1) obtain ip s2 where a: "lex_int (snd (lex_minus s)) = Some (ip, s2)"
    unfolding lex_number_def Let_def case_prod_beta
    by (cases "lex_int (snd (lex_minus s))") auto
  from assms(1) a obtain fp s3 where b: "lex_frac s2 = Some (fp, s3)"
    unfolding lex_number_def Let_def case_prod_beta
    by (cases "lex_frac s2") auto
  from assms(1) a b obtain ep where c: "lex_exp s3 = Some (ep, s4)"
    and lit: "lit = fst (lex_minus s) @ ip @ fp @ ep"
    unfolding lex_number_def Let_def case_prod_beta
    by (cases "lex_exp s3") auto
  have m: "lex_minus (s @ r) = (fst (lex_minus s), snd (lex_minus s) @ r)"
    by (rule lex_minus_append) (rule lex_number_not_Nil [OF assms(1)])
  show ?thesis
    unfolding lex_number_def Let_def m
    by (simp add: lex_int_append [OF a assms(2)] lex_frac_append [OF b assms(2)]
        lex_exp_append [OF c assms(2)] lit)
qed

lemma lex_number_start:
  assumes "lex_number s = Some (t, r)"
  shows "\<exists>c cs. s = c # cs \<and> (c = cu (CHR ''-'') \<or> is_digit_unit c)"
proof (cases s)
  case Nil
  with lex_number_not_Nil [OF assms] show ?thesis by simp
next
  case (Cons c cs)
  show ?thesis
  proof (cases "c = cu (CHR ''-'')")
    case True
    with Cons show ?thesis by simp
  next
    case False
    with assms Cons have "lex_int (c # cs) \<noteq> None"
      by (auto simp: lex_number_def lex_minus_def split: option.splits)
    then have "is_digit_unit c"
      by (auto simp: lex_int_def is_digit_unit_def cu_def split: if_splits)
    with Cons show ?thesis by simp
  qed
qed

lemma less_16_cases:
  "d < 16 \<Longrightarrow> d = 0 \<or> d = 1 \<or> d = 2 \<or> d = 3 \<or> d = 4 \<or> d = 5 \<or> d = 6 \<or> d = 7 \<or> d = 8 \<or> d = 9
     \<or> d = 10 \<or> d = 11 \<or> d = 12 \<or> d = 13 \<or> d = 14 \<or> d = (15::nat)"
  by arith

lemma hex_val_hex_unit: "d < 16 \<Longrightarrow> hex_val (hex_unit d) = Some d"
  by (drule less_16_cases) (auto simp: hex_val_def hex_unit_def cu_def)

lemma hex_digits_value:
  fixes n :: nat
  shows "((n div 4096 * 16 + n div 256 mod 16) * 16 + n div 16 mod 16) * 16 + n mod 16 = n"
proof -
  define a where "a = n div 16"
  define b where "b = a div 16"
  have b: "n div 256 = b"
    unfolding b_def a_def by (simp add: div_mult2_eq [symmetric])
  have c: "n div 4096 = b div 16"
    unfolding b_def a_def by (simp add: div_mult2_eq [symmetric])
  have "b div 16 * 16 + b mod 16 = b" by simp
  moreover have "b * 16 + a mod 16 = a" unfolding b_def by simp
  moreover have "a * 16 + n mod 16 = n" unfolding a_def by simp
  ultimately show ?thesis
    unfolding b c a_def [symmetric] by simp
qed

lemma hex4_unicode_escape:
  "hex4 (hex_unit (unat c div 4096)) (hex_unit (unat c div 256 mod 16))
        (hex_unit (unat c div 16 mod 16)) (hex_unit (unat c mod 16)) = Some c"
proof -
  have "unat c < 2 ^ LENGTH(16)" by (rule unsigned_less)
  then have "unat c < 65536" by simp
  then have "unat c div 4096 < 16" by simp
  then have h1: "hex_val (hex_unit (unat c div 4096)) = Some (unat c div 4096)"
    by (rule hex_val_hex_unit)
  have h2: "hex_val (hex_unit (unat c div 256 mod 16)) = Some (unat c div 256 mod 16)"
    by (rule hex_val_hex_unit) simp
  have h3: "hex_val (hex_unit (unat c div 16 mod 16)) = Some (unat c div 16 mod 16)"
    by (rule hex_val_hex_unit) simp
  have h4: "hex_val (hex_unit (unat c mod 16)) = Some (unat c mod 16)"
    by (rule hex_val_hex_unit) simp
  have "hex4 (hex_unit (unat c div 4096)) (hex_unit (unat c div 256 mod 16))
        (hex_unit (unat c div 16 mod 16)) (hex_unit (unat c mod 16))
      = Some (of_nat (((unat c div 4096 * 16 + unat c div 256 mod 16) * 16
                        + unat c div 16 mod 16) * 16 + unat c mod 16))"
    unfolding hex4_def h1 h2 h3 h4 by (simp only: prod.case option.case)
  also have "\<dots> = Some (of_nat (unat c))"
    by (simp only: hex_digits_value)
  finally show ?thesis by simp
qed

lemma lex_string_escape2:
  assumes "unescape e = Some c" "e \<noteq> cu (CHR ''u'')"
  shows "lex_string (cu (CHR 0x5C) # e # r) = map_option (\<lambda>(s, r'). (c # s, r')) (lex_string r)"
  using assms by (simp add: cu_def)

lemma lex_string_plain:
  assumes "c \<noteq> cu (CHR 0x22)" "c \<noteq> cu (CHR 0x5C)" "\<not> c < 0x20"
  shows "lex_string (c # r) = map_option (\<lambda>(s, r'). (c # s, r')) (lex_string r)"
  using assms by simp

lemma lex_string_unicode_escape:
  "lex_string (unicode_escape c @ r) = map_option (\<lambda>(s, r'). (c # s, r')) (lex_string r)"
proof -
  have "cu (CHR 0x5C) \<noteq> cu (CHR 0x22)" by (simp add: cu_def)
  then show ?thesis
    by (simp add: unicode_escape_def hex4_unicode_escape)
qed

lemma quote_unit_cases:
  "(\<exists>e. quote_unit c = [cu (CHR 0x5C), e] \<and> unescape e = Some c \<and> e \<noteq> cu (CHR ''u''))
   \<or> quote_unit c = unicode_escape c
   \<or> quote_unit c = [c] \<and> c \<noteq> cu (CHR 0x22) \<and> c \<noteq> cu (CHR 0x5C) \<and> \<not> c < 0x20"
  unfolding quote_unit_def unescape_def by (simp add: cu_def)

lemma lex_string_quote_unit:
  "lex_string (quote_unit c @ r) = map_option (\<lambda>(s, r'). (c # s, r')) (lex_string r)"
  using quote_unit_cases [of c]
  by (elim disjE exE conjE)
     (simp_all add: lex_string_escape2 lex_string_plain lex_string_unicode_escape
        del: lex_string.simps)

lemma surrogate_plain:
  assumes "is_high_surrogate c \<or> is_low_surrogate c"
  shows "c \<noteq> cu (CHR 0x22)" "c \<noteq> cu (CHR 0x5C)" "\<not> c < 0x20"
  using assms
  by (auto simp: is_high_surrogate_def is_low_surrogate_def cu_def word_le_nat_alt word_less_nat_alt)

lemma lex_string_surrogate:
  assumes "is_high_surrogate c \<or> is_low_surrogate c"
  shows "lex_string (c # r) = map_option (\<lambda>(s, r'). (c # s, r')) (lex_string r)"
  using surrogate_plain [OF assms] by (rule lex_string_plain)

lemma lex_string_quote_units:
  "lex_string (quote_units s @ cu (CHR 0x22) # r) = Some (s, r)"
proof (induction s rule: quote_units.induct)
  case 1
  show ?case by simp
next
  case (2 c cs)
  show ?case
  proof (cases "is_high_surrogate c")
    case hi: True
    show ?thesis
    proof (cases cs)
      case Nil
      with hi show ?thesis by (simp add: lex_string_unicode_escape)
    next
      case (Cons d r')
      show ?thesis
      proof (cases "is_low_surrogate d")
        case True
        with 2(1) [OF hi Cons True] hi Cons show ?thesis
          by (simp add: lex_string_surrogate del: lex_string.simps)
      next
        case False
        with 2(2) [OF hi Cons False] hi Cons show ?thesis
          by (simp add: lex_string_unicode_escape del: lex_string.simps)
      qed
    qed
  next
    case nhi: False
    show ?thesis
    proof (cases "is_low_surrogate c")
      case True
      with 2(3) [OF nhi True] nhi show ?thesis
        by (simp add: lex_string_unicode_escape del: lex_string.simps)
    next
      case False
      with 2(4) [OF nhi False] nhi show ?thesis
        by (simp add: lex_string_quote_unit del: lex_string.simps)
    qed
  qed
qed

lemma tokenize_quote:
  "tokenize nf (quote s @ r) = map_option ((#) (TScalar (JStr s))) (tokenize nf r)"
proof -
  have "\<not> is_space (cu (CHR 0x22))" "cu (CHR 0x22) \<noteq> cu (CHR ''{'')"
    "cu (CHR 0x22) \<noteq> cu (CHR ''}'')" "cu (CHR 0x22) \<noteq> cu (CHR ''['')"
    "cu (CHR 0x22) \<noteq> cu (CHR '']'')" "cu (CHR 0x22) \<noteq> cu (CHR '','')"
    "cu (CHR 0x22) \<noteq> cu (CHR '':'')"
    by (simp_all add: is_space_def cu_def)
  then show ?thesis
    unfolding quote_def append_Cons append_Nil
    by (subst tokenize.simps) (simp add: lex_string_quote_units)
qed

lemma tokenize_punct:
  "tokenize nf (cu (CHR ''{'') # r) = map_option ((#) TLBrace) (tokenize nf r)"
  "tokenize nf (cu (CHR ''}'') # r) = map_option ((#) TRBrace) (tokenize nf r)"
  "tokenize nf (cu (CHR ''['') # r) = map_option ((#) TLBrack) (tokenize nf r)"
  "tokenize nf (cu (CHR '']'') # r) = map_option ((#) TRBrack) (tokenize nf r)"
  "tokenize nf (cu (CHR '','') # r) = map_option ((#) TComma) (tokenize nf r)"
  "tokenize nf (cu (CHR '':'') # r) = map_option ((#) TColon) (tokenize nf r)"
  by (subst tokenize.simps, simp add: is_space_def cu_def)+

lemma tokenize_literal:
  "tokenize nf (js_lit ''null'' @ r) = map_option ((#) (TScalar JNull)) (tokenize nf r)"
  "tokenize nf (js_lit ''true'' @ r) = map_option ((#) (TScalar (JBool True))) (tokenize nf r)"
  "tokenize nf (js_lit ''false'' @ r) = map_option ((#) (TScalar (JBool False))) (tokenize nf r)"
  unfolding js_lit_def list.map append_Cons append_Nil
  by (subst tokenize.simps, simp add: is_space_def is_digit_unit_def cu_def js_lit_def)+

lemma tokenize_number:
  assumes "c = cu (CHR ''-'') \<or> is_digit_unit c"
  shows "tokenize nf (c # cs) =
    (case lex_number (c # cs) of None \<Rightarrow> None
     | Some (lit, r) \<Rightarrow> map_option ((#) (TScalar (JNum (number_value nf lit)))) (tokenize nf r))"
proof -
  from assms have "\<not> is_space c" "c \<noteq> cu (CHR ''{'')" "c \<noteq> cu (CHR ''}'')"
    "c \<noteq> cu (CHR ''['')" "c \<noteq> cu (CHR '']'')" "c \<noteq> cu (CHR '','')"
    "c \<noteq> cu (CHR '':'')" "c \<noteq> cu (CHR 0x22)"
    by (auto simp: is_space_def is_digit_unit_def cu_def)
  with assms show ?thesis
    by (subst tokenize.simps) (simp only: if_False if_True)
qed

lemma tokenize_number_text:
  assumes "number_reads_back nf x" "delim r"
  shows "tokenize nf (number_text nf x @ r) = map_option ((#) (TScalar (JNum x))) (tokenize nf r)"
proof -
  from assms(1) have l: "lex_number (number_text nf x) = Some (number_text nf x, [])"
    and v: "number_value nf (number_text nf x) = x"
    by (simp_all add: number_reads_back_def)
  from lex_number_start [OF l] obtain c cs where
    cs: "number_text nf x = c # cs" and c: "c = cu (CHR ''-'') \<or> is_digit_unit c"
    by blast
  have "lex_number (number_text nf x @ r) = Some (number_text nf x, [] @ r)"
    by (rule lex_number_append [OF l assms(2)])
  then have "lex_number (c # (cs @ r)) = Some (number_text nf x, r)"
    by (simp add: cs)
  with tokenize_number [OF c, of nf "cs @ r"] v show ?thesis
    by (simp add: cs)
qed

lemma tokenize_join:
  assumes "\<And>x r. x \<in> set xs \<Longrightarrow> delim r \<Longrightarrow>
      tokenize nf (f x @ r) = map_option ((@) (g x)) (tokenize nf r)"
    and "delim r"
  shows "tokenize nf (join [cu (CHR '','')] (map f xs) @ r)
       = map_option ((@) (join [TComma] (map g xs))) (tokenize nf r)"
  using assms
proof (induction xs rule: induct_list012)
  case 1
  then show ?case by (simp add: option.map_ident)
next
  case (2 x)
  then show ?case by simp
next
  case (3 x y zs)
  have "tokenize nf (f x @ cu (CHR '','') # join [cu (CHR '','')] (map f (y # zs)) @ r)
      = map_option ((@) (g x))
          (tokenize nf (cu (CHR '','') # join [cu (CHR '','')] (map f (y # zs)) @ r))"
    by (rule 3(3)) (simp_all add: delim_simps)
  also have "tokenize nf (cu (CHR '','') # join [cu (CHR '','')] (map f (y # zs)) @ r)
      = map_option ((#) TComma) (tokenize nf (join [cu (CHR '','')] (map f (y # zs)) @ r))"
    by (rule tokenize_punct)
  also have "tokenize nf (join [cu (CHR '','')] (map f (y # zs)) @ r)
      = map_option ((@) (join [TComma] (map g (y # zs)))) (tokenize nf r)"
    by (rule 3(2)) (use 3(3,4) in simp_all)
  finally show ?case
    by (simp add: option.map_comp comp_def)
qed

lemma js_lit_single: "js_lit [c] = [cu c]"
  by (simp add: js_lit_def)

lemma tokenize_stringify:
  "json_safe nf v \<Longrightarrow> delim r \<Longrightarrow>
     tokenize nf (JSON_stringify nf v @ r) = map_option ((@) (tokens_of v)) (tokenize nf r)"
proof (induction v arbitrary: r)
  case JNull
  then show ?case using tokenize_literal(1) [of nf r] by simp
next
  case (JBool b)
  then show ?case using tokenize_literal(2,3) [of nf r] by simp
next
  case (JNum x)
  then show ?case by (simp add: tokenize_number_text)
next
  case (JStr s)
  then show ?case by (simp add: tokenize_quote)
next
  case (JArr vs)
  have "tokenize nf (join [cu (CHR '','')] (map (JSON_stringify nf) vs) @ cu (CHR '']'') # r)
      = map_option ((@) (join [TComma] (map tokens_of vs))) (tokenize nf (cu (CHR '']'') # r))"
    by (rule tokenize_join) (use JArr in \<open>simp_all add: delim_simps\<close>)
  then show ?case
    by (simp add: js_lit_single tokenize_punct option.map_comp comp_def)
next
  case (JObj kvs)
  let ?f = "\<lambda>(k, v). quote k @ js_lit '':'' @ JSON_stringify nf v"
  let ?g = "\<lambda>(k, v). TScalar (JStr k) # TColon # tokens_of v"
  have item: "tokenize nf (?f x @ r') = map_option ((@) (?g x)) (tokenize nf r')"
    if "x \<in> set kvs" "delim r'" for x r'
  proof -
    obtain k v where x: "x = (k, v)" by (cases x)
    from that x JObj.prems have "json_safe nf v" by auto
    moreover from that x have "v \<in> Basic_BNFs.snds x" "x \<in> set kvs" by simp_all
    ultimately have "tokenize nf (JSON_stringify nf v @ r')
        = map_option ((@) (tokens_of v)) (tokenize nf r')"
      using JObj.IH that(2) by blast
    then show ?thesis
      by (cases "tokenize nf r'") (simp_all add: x js_lit_single tokenize_quote tokenize_punct)
  qed
  have "tokenize nf (join [cu (CHR '','')] (map ?f kvs) @ cu (CHR ''}'') # r)
      = map_option ((@) (join [TComma] (map ?g kvs))) (tokenize nf (cu (CHR ''}'') # r))"
    by (rule tokenize_join) (use item in \<open>simp_all add: delim_simps\<close>)
  then show ?case
    by (simp add: js_lit_single tokenize_punct option.map_comp comp_def)
qed

lemma tokens_of_start:
  "\<exists>t ts. tokens_of v = t # ts \<and> (\<forall>st. step t (ArrStart, st) = step t (Value, InArr [] # st))"
  by (cases v) simp_all

lemma parse_tokens_ArrStart:
  "parse_tokens (tokens_of v @ ts) (ArrStart, st) = parse_tokens (tokens_of v @ ts) (Value, InArr [] # st)"
proof -
  obtain t ts' where "tokens_of v = t # ts'"
    and "\<forall>st. step t (ArrStart, st) = step t (Value, InArr [] # st)"
    using tokens_of_start by blast
  then show ?thesis by simp
qed

lemma join_Cons_Cons: "join sep (x # y # ys) @ r = x @ sep @ join sep (y # ys) @ r"
  by simp

lemma parse_tokens_elements:
  assumes "\<And>v ts st. v \<in> set vs \<Longrightarrow>
      parse_tokens (tokens_of v @ ts) (Value, st) = parse_tokens ts (After v, st)"
    and "vs \<noteq> []"
  shows "parse_tokens (join [TComma] (map tokens_of vs) @ TRBrack # ts) (Value, InArr acc # st)
       = parse_tokens ts (After (JArr (acc @ vs)), st)"
  using assms
proof (induction vs arbitrary: acc rule: induct_list012)
  case 1
  then show ?case by simp
next
  case (2 x)
  then show ?case by simp
next
  case (3 x y zs)
  have "parse_tokens (tokens_of x @ TComma # join [TComma] (map tokens_of (y # zs)) @ TRBrack # ts)
          (Value, InArr acc # st)
      = parse_tokens (TComma # join [TComma] (map tokens_of (y # zs)) @ TRBrack # ts)
          (After x, InArr acc # st)"
    by (rule 3(3)) simp
  also have "\<dots> = parse_tokens (join [TComma] (map tokens_of (y # zs)) @ TRBrack # ts)
          (Value, InArr (acc @ [x]) # st)"
    by simp
  also have "\<dots> = parse_tokens ts (After (JArr ((acc @ [x]) @ y # zs)), st)"
  proof (rule 3(2))
    fix v' ts' st'
    assume "v' \<in> set (y # zs)"
    then have "v' \<in> set (x # y # zs)" by simp
    then show "parse_tokens (tokens_of v' @ ts') (Value, st') = parse_tokens ts' (After v', st')"
      by (rule 3(3))
  qed simp
  finally show ?case by simp
qed

lemma parse_tokens_members:
  assumes "\<And>k v ts st. (k, v) \<in> set kvs \<Longrightarrow>
      parse_tokens (tokens_of v @ ts) (Value, st) = parse_tokens ts (After v, st)"
    and "kvs \<noteq> []"
  shows "parse_tokens
           (join [TComma] (map (\<lambda>(k, v). TScalar (JStr k) # TColon # tokens_of v) kvs) @ TRBrace # ts)
           (Key acc, st)
       = parse_tokens ts (After (JObj (fold (\<lambda>(k, v) a. js_set a k v) kvs acc)), st)"
  using assms
proof (induction kvs arbitrary: acc rule: induct_list012)
  case 1
  then show ?case by simp
next
  case (2 x)
  obtain k v where x: "x = (k, v)" by (cases x)
  with 2 have "parse_tokens (tokens_of v @ TRBrace # ts) (Value, InObj acc k # st)
      = parse_tokens (TRBrace # ts) (After v, InObj acc k # st)"
    by simp
  then show ?case by (simp add: x)
next
  case (3 x y zs)
  let ?g = "\<lambda>(k, v). TScalar (JStr k) # TColon # tokens_of v"
  obtain k v where x: "x = (k, v)" by (cases x)
  have "parse_tokens (tokens_of v @ TComma # join [TComma] (map ?g (y # zs)) @ TRBrace # ts)
          (Value, InObj acc k # st)
      = parse_tokens (TComma # join [TComma] (map ?g (y # zs)) @ TRBrace # ts)
          (After v, InObj acc k # st)"
    by (rule 3(3) [of k]) (simp add: x)
  also have "\<dots> = parse_tokens (join [TComma] (map ?g (y # zs)) @ TRBrace # ts)
          (Key (js_set acc k v), st)"
    by simp
  also have "\<dots> = parse_tokens ts
          (After (JObj (fold (\<lambda>(k, v) a. js_set a k v) (y # zs) (js_set acc k v))), st)"
  proof (rule 3(2))
    fix k' v' ts' st'
    assume "(k', v') \<in> set (y # zs)"
    then have "(k', v') \<in> set (x # y # zs)" by simp
    then show "parse_tokens (tokens_of v' @ ts') (Value, st') = parse_tokens ts' (After v', st')"
      by (rule 3(3))
  qed simp
  finally show ?case by (simp add: x)
qed

lemma set_js_insert: "set (js_insert obj k v) = insert (k, v) (set obj)"
  by (induction obj) (auto split: if_splits)

lemma set_js_update: "set (js_update obj k v) \<subseteq> insert (k, v) (set obj)"
  by (induction obj) (auto split: if_splits)

lemma map_fst_js_update: "map fst (js_update obj k v) = map fst obj"
  by (induction obj) auto

lemma map_of_js_update:
  "map_of (js_update obj k v) k' = (if k' = k \<and> map_of obj k \<noteq> None then Some v else map_of obj k')"
  by (induction obj) auto

lemma map_of_js_insert:
  "k \<notin> fst ` set obj \<Longrightarrow> map_of (js_insert obj k v) k' = (if k' = k then Some v else map_of obj k')"
  by (induction obj) auto

lemma distinct_js_insert:
  "k \<notin> fst ` set obj \<Longrightarrow> distinct (map fst obj) \<Longrightarrow> distinct (map fst (js_insert obj k v))"
  by (induction obj) (auto simp: set_js_insert)

lemma key_before_trans: "key_before k k' \<Longrightarrow> \<not> key_before b k' \<Longrightarrow> \<not> key_before b k"
  by (auto simp: key_before_def split: option.splits)

lemma keys_ordered_js_insert:
  "keys_ordered (map fst obj) \<Longrightarrow> keys_ordered (map fst (js_insert obj k v))"
proof (induction obj)
  case Nil
  then show ?case by (simp add: keys_ordered_def)
next
  case (Cons kv obj)
  obtain k' v' where kv: "kv = (k', v')" by (cases kv)
  show ?case
  proof (cases "key_before k k'")
    case True
    have "\<not> key_before b k" if "b \<in> set (map fst obj)" for b
    proof -
      from Cons.prems that have "\<not> key_before b k'"
        by (auto simp: keys_ordered_def kv)
      with True show ?thesis by (rule key_before_trans)
    qed
    moreover from True have "\<not> key_before k' k"
      by (auto simp: key_before_def split: option.splits)
    ultimately show ?thesis
      using Cons.prems True by (auto simp: keys_ordered_def kv)
  next
    case False
    from Cons.prems have "keys_ordered (map fst obj)"
      by (simp add: keys_ordered_def kv)
    then have "keys_ordered (map fst (js_insert obj k v))"
      by (rule Cons.IH)
    moreover have "fst ` set (js_insert obj k v) = insert k (fst ` set obj)"
      by (simp add: set_js_insert)
    ultimately show ?thesis
      using Cons.prems False by (auto simp: keys_ordered_def kv)
  qed
qed

lemma js_insert_last:
  "\<forall>a \<in> fst ` set obj. \<not> key_before k a \<Longrightarrow> js_insert obj k v = obj @ [(k, v)]"
  by (induction obj) auto

lemma js_set_fresh:
  "k \<notin> fst ` set obj \<Longrightarrow> \<forall>a \<in> fst ` set obj. \<not> key_before k a \<Longrightarrow> js_set obj k v = obj @ [(k, v)]"
  by (simp add: js_set_def js_get_def map_of_eq_None_iff [symmetric] js_insert_last)

lemma fold_js_set_ordered:
  "distinct (map fst (acc @ kvs)) \<Longrightarrow> keys_ordered (map fst (acc @ kvs))
     \<Longrightarrow> fold (\<lambda>(k, v) a. js_set a k v) kvs acc = acc @ kvs"
proof (induction kvs arbitrary: acc)
  case Nil
  then show ?case by simp
next
  case (Cons kv kvs)
  obtain k v where kv: "kv = (k, v)" by (cases kv)
  from Cons.prems(1) have fresh: "k \<notin> fst ` set acc" by (auto simp: kv)
  from Cons.prems(2) have last: "\<forall>a \<in> fst ` set acc. \<not> key_before k a"
    by (auto simp: kv keys_ordered_def sorted_wrt_append)
  from Cons.prems have "distinct (map fst ((acc @ [(k, v)]) @ kvs))"
    "keys_ordered (map fst ((acc @ [(k, v)]) @ kvs))"
    by (simp_all add: kv)
  from Cons.IH [OF this] show ?case by (simp add: kv js_set_fresh [OF fresh last])
qed

lemma parse_tokens_tokens_of:
  "json_safe nf v \<Longrightarrow> parse_tokens (tokens_of v @ ts) (Value, st) = parse_tokens ts (After v, st)"
proof (induction v arbitrary: ts st)
  case (JArr vs)
  show ?case
  proof (cases "vs = []")
    case True
    then show ?thesis by simp
  next
    case False
    then obtain x xs where vs: "vs = x # xs" by (cases vs) auto
    have ih: "parse_tokens (tokens_of v @ ts') (Value, st') = parse_tokens ts' (After v, st')"
      if "v \<in> set vs" for v ts' st'
      using JArr.IH [OF that] JArr.prems that by simp
    have "parse_tokens (join [TComma] (map tokens_of vs) @ TRBrack # ts) (ArrStart, st)
        = parse_tokens (join [TComma] (map tokens_of vs) @ TRBrack # ts) (Value, InArr [] # st)"
    proof (cases xs)
      case Nil
      then show ?thesis using parse_tokens_ArrStart [of x "TRBrack # ts" st] by (simp add: vs)
    next
      case (Cons y ys)
      then show ?thesis
        using parse_tokens_ArrStart [of x "TComma # join [TComma] (map tokens_of (y # ys)) @ TRBrack # ts" st]
        by (simp add: vs)
    qed
    also have "\<dots> = parse_tokens ts (After (JArr ([] @ vs)), st)"
      by (rule parse_tokens_elements) (use ih False in simp_all)
    finally show ?thesis by simp
  qed
next
  case (JObj kvs)
  let ?g = "\<lambda>(k, v). TScalar (JStr k) # TColon # tokens_of v"
  show ?case
  proof (cases "kvs = []")
    case True
    then show ?thesis by simp
  next
    case False
    then obtain k v xs where kvs: "kvs = (k, v) # xs" by (cases kvs) auto
    have ih: "parse_tokens (tokens_of v @ ts') (Value, st') = parse_tokens ts' (After v, st')"
      if "(k, v) \<in> set kvs" for k v ts' st'
    proof -
      from that JObj.prems have "json_safe nf v" by auto
      moreover from that have "v \<in> Basic_BNFs.snds (k, v)" by simp
      ultimately show ?thesis using JObj.IH that by blast
    qed
    have "parse_tokens (join [TComma] (map ?g kvs) @ TRBrace # ts) (ObjStart, st)
        = parse_tokens (join [TComma] (map ?g kvs) @ TRBrace # ts) (Key [], st)"
      by (cases xs) (simp_all add: kvs)
    also have "\<dots> = parse_tokens ts (After (JObj (fold (\<lambda>(k, v) a. js_set a k v) kvs [])), st)"
      by (rule parse_tokens_members) (use ih False in simp_all)
    also have "fold (\<lambda>(k, v) a. js_set a k v) kvs [] = kvs"
      using fold_js_set_ordered [of "[]" kvs] JObj.prems by simp
    finally show ?thesis by simp
  qed
qed simp_all

lemma JSON_parse_stringify:
  assumes "json_safe nf v"
  shows "JSON_parse nf (JSON_stringify nf v) = Inr v"
proof -
  have "tokenize nf (JSON_stringify nf v @ []) = map_option ((@) (tokens_of v)) (tokenize nf [])"
    by (rule tokenize_stringify [OF assms]) (simp add: delim_def)
  then have "tokenize nf (JSON_stringify nf v) = Some (tokens_of v @ [])"
    by (simp add: tokenize.simps(1))
  moreover have "parse_tokens (tokens_of v @ []) (Value, []) = parse_tokens [] (After v, [])"
    by (rule parse_tokens_tokens_of [OF assms])
  ultimately show ?thesis by (simp add: JSON_parse_def)
qed

section \<open>The finite numbers read back\<close>

lemma digit_unit_cu:
  assumes "d < 10"
  shows "is_digit_unit (cu (digit_char d))" "unat (cu (digit_char d)) = 48 + d"
    "cu (digit_char d) = cu (CHR ''0'') \<longleftrightarrow> d = 0"
  using less_10_cases [OF assms] by (auto simp: digit_char_def cu_def is_digit_unit_def)

lemma js_lit_append: "js_lit (a @ b) = js_lit a @ js_lit b"
  by (simp add: js_lit_def)

lemma js_lit_nat_digits: "list_all is_digit_unit (js_lit (nat_to_string n))"
proof (induction n rule: nat_to_string.induct)
  case (1 n)
  show ?case
  proof (cases "n < 10")
    case True
    then show ?thesis by (simp add: nat_to_string.simps [of n] js_lit_def digit_unit_cu)
  next
    case False
    with 1 show ?thesis by (simp add: nat_to_string.simps [of n] js_lit_def digit_unit_cu)
  qed
qed

lemma units_to_nat_snoc: "units_to_nat (ds @ [c]) = 10 * units_to_nat ds + (unat c - 48)"
  by (simp add: units_to_nat_def)

lemma units_to_nat_append:
  "units_to_nat (xs @ ys) = units_to_nat xs * 10 ^ length ys + units_to_nat ys"
proof (induction ys rule: rev_induct)
  case Nil
  then show ?case by (simp add: units_to_nat_def)
next
  case (snoc y ys)
  have "units_to_nat (xs @ ys @ [y]) = units_to_nat ((xs @ ys) @ [y])" by simp
  also have "\<dots> = 10 * units_to_nat (xs @ ys) + (unat y - 48)" by (rule units_to_nat_snoc)
  finally show ?case by (simp add: snoc.IH units_to_nat_snoc algebra_simps)
qed

lemma units_to_nat_nat_to_string: "units_to_nat (js_lit (nat_to_string n)) = n"
proof (induction n rule: nat_to_string.induct)
  case (1 n)
  show ?case
  proof (cases "n < 10")
    case True
    then show ?thesis
      by (simp add: nat_to_string.simps [of n] js_lit_def units_to_nat_def digit_unit_cu)
  next
    case False
    with 1 have "units_to_nat (js_lit (nat_to_string (n div 10))) = n div 10" by simp
    with False show ?thesis
      by (simp add: nat_to_string.simps [of n] js_lit_append units_to_nat_snoc js_lit_def [of "[c]" for c]
          digit_unit_cu)
  qed
qed

lemma units_to_nat_zeros: "units_to_nat (replicate z (cu (CHR ''0'')) @ ds) = units_to_nat ds"
proof (induction z)
  case 0
  then show ?case by simp
next
  case (Suc z)
  have "units_to_nat ([cu (CHR ''0'')] @ replicate z (cu (CHR ''0'')) @ ds)
      = units_to_nat [cu (CHR ''0'')] * 10 ^ length (replicate z (cu (CHR ''0'')) @ ds)
        + units_to_nat (replicate z (cu (CHR ''0'')) @ ds)"
    by (rule units_to_nat_append)
  moreover have "units_to_nat [cu (CHR ''0'')] = 0"
    by (simp add: units_to_nat_def cu_def)
  ultimately show ?case using Suc by simp
qed

lemma js_lit_nat_not_Nil: "js_lit (nat_to_string n) \<noteq> []"
  by (simp add: js_lit_def nat_to_string_not_Nil)

lemma hd_js_lit_nat: "0 < n \<Longrightarrow> hd (js_lit (nat_to_string n)) \<noteq> cu (CHR ''0'')"
proof (induction n rule: nat_to_string.induct)
  case (1 n)
  show ?case
  proof (cases "n < 10")
    case True
    with 1(2) show ?thesis by (simp add: nat_to_string.simps [of n] js_lit_def digit_unit_cu)
  next
    case False
    then have "0 < n div 10" by simp
    with 1 False show ?thesis
      by (simp add: nat_to_string.simps [of n] js_lit_append js_lit_nat_not_Nil)
  qed
qed

lemma last_js_lit_nat: "n mod 10 \<noteq> 0 \<Longrightarrow> last (js_lit (nat_to_string n)) \<noteq> cu (CHR ''0'')"
  by (cases "n < 10") (simp_all add: nat_to_string.simps [of n] js_lit_def digit_unit_cu)

lemma strip_zeros_keep: "xs \<noteq> [] \<Longrightarrow> last xs \<noteq> cu (CHR ''0'') \<Longrightarrow> strip_zeros (ys @ xs) = ys @ xs"
  by (cases xs rule: rev_cases) (simp_all add: strip_zeros_def)

lemma strip_zeros_zeros: "strip_zeros (xs @ replicate z (cu (CHR ''0''))) = strip_zeros xs"
proof -
  have "dropWhile (\<lambda>c. c = cu (CHR ''0'')) (replicate z (cu (CHR ''0'')) @ rev xs)
      = dropWhile (\<lambda>c. c = cu (CHR ''0'')) (rev xs)"
    by (rule dropWhile_append2) simp
  then show ?thesis by (simp add: strip_zeros_def)
qed

lemma takeWhile_digits:
  assumes "list_all is_digit_unit xs" "no_digit_next r"
  shows "takeWhile is_digit_unit (xs @ r) = xs" "dropWhile is_digit_unit (xs @ r) = r"
  using assms by (induction xs) (auto simp: no_digit_next_def split: list.splits)

lemma lex_int_parts:
  assumes "list_all is_digit_unit ip" "ip \<noteq> []" "hd ip = cu (CHR ''0'') \<longrightarrow> ip = [cu (CHR ''0'')]"
    "no_digit_next r"
  shows "lex_int (ip @ r) = Some (ip, r)"
proof -
  from assms(2) obtain c ip' where ip: "ip = c # ip'" by (cases ip) auto
  show ?thesis
  proof (cases "c = cu (CHR ''0'')")
    case True
    with assms(3) ip have "ip' = []" by simp
    with True ip show ?thesis by (simp add: lex_int_def)
  next
    case False
    from assms(1) ip have "is_digit_unit c" "list_all is_digit_unit ip'" by simp_all
    with False takeWhile_digits [OF _ assms(4), of ip'] show ?thesis
      by (simp add: lex_int_def ip)
  qed
qed

lemma no_digit_next_exp_text: "no_digit_next (exp_text g ed)"
  by (simp add: no_digit_next_def exp_text_def is_digit_unit_def cu_def)

lemma no_digit_next_frac_text: "no_digit_next (frac_text fp @ r) \<longleftrightarrow> fp \<noteq> [] \<or> no_digit_next r"
  by (simp add: no_digit_next_def frac_text_def is_digit_unit_def cu_def)

lemma lex_frac_parts:
  assumes "list_all is_digit_unit fp"
  shows "lex_frac (frac_text fp @ exp_text g ed) = Some (frac_text fp, exp_text g ed)"
proof (cases "fp = []")
  case True
  then show ?thesis
    by (simp add: frac_text_def exp_text_def lex_frac_def cu_def)
next
  case False
  with takeWhile_digits [OF assms no_digit_next_exp_text, of g ed] show ?thesis
    by (simp add: frac_text_def lex_frac_def)
qed

lemma lex_sign_parts:
  assumes "list_all is_digit_unit ed" "g = [] \<or> g = [cu (CHR ''-'')] \<or> g = [cu (CHR ''+'')]"
  shows "lex_sign (g @ ed) = (g, ed)"
proof (cases "g = []")
  case True
  with assms(1) show ?thesis
    by (cases ed) (auto simp: lex_sign_def is_digit_unit_def cu_def)
next
  case False
  with assms(2) show ?thesis by (auto simp: lex_sign_def)
qed

lemma lex_exp_parts:
  assumes "list_all is_digit_unit ed" "g = [] \<or> g = [cu (CHR ''-'')] \<or> g = [cu (CHR ''+'')]"
  shows "lex_exp (exp_text g ed) = Some (exp_text g ed, [])"
proof (cases "ed = []")
  case True
  then show ?thesis by (simp add: exp_text_def lex_exp_def)
next
  case False
  have tw: "takeWhile is_digit_unit ed = ed" "dropWhile is_digit_unit ed = []"
    using assms(1) by (simp_all add: list_all_iff)
  from False show ?thesis
    by (simp add: exp_text_def lex_exp_def lex_sign_parts [OF assms] tw)
qed

lemma exponent_value_parts:
  assumes "list_all is_digit_unit ed" "g = [] \<or> g = [cu (CHR ''-'')] \<or> g = [cu (CHR ''+'')]"
  shows "exponent_value (exp_text g ed)
       = (if g = [cu (CHR ''-'')] then - int (units_to_nat ed) else int (units_to_nat ed))"
proof (cases "ed = []")
  case True
  then show ?thesis by (simp add: exp_text_def exponent_value_def units_to_nat_def)
next
  case False
  with lex_sign_parts [OF assms] show ?thesis
    by (simp add: exp_text_def exponent_value_def)
qed

lemma lex_minus_parts:
  assumes "list_all is_digit_unit ip" "ip \<noteq> []" "sg = [] \<or> sg = [cu (CHR ''-'')]"
  shows "lex_minus (sg @ ip @ r) = (sg, ip @ r)"
proof (cases "sg = []")
  case True
  with assms(1,2) show ?thesis
    by (cases ip) (auto simp: lex_minus_def is_digit_unit_def cu_def)
next
  case False
  with assms(3) show ?thesis by (auto simp: lex_minus_def)
qed

lemma literal_parts:
  assumes ip: "list_all is_digit_unit ip" "ip \<noteq> []"
      "hd ip = cu (CHR ''0'') \<longrightarrow> ip = [cu (CHR ''0'')]"
    and fp: "list_all is_digit_unit fp"
    and ed: "list_all is_digit_unit ed"
    and sg: "sg = [] \<or> sg = [cu (CHR ''-'')]"
    and g: "g = [] \<or> g = [cu (CHR ''-'')] \<or> g = [cu (CHR ''+'')]"
  shows "lex_number (sg @ ip @ frac_text fp @ exp_text g ed)
           = Some (sg @ ip @ frac_text fp @ exp_text g ed, [])"
    and "literal_value (sg @ ip @ frac_text fp @ exp_text g ed)
           = decimal_value (sg \<noteq> []) ip fp
               (if g = [cu (CHR ''-'')] then - int (units_to_nat ed) else int (units_to_nat ed))"
proof -
  have 1: "lex_minus (sg @ ip @ frac_text fp @ exp_text g ed)
      = (sg, ip @ frac_text fp @ exp_text g ed)"
    by (rule lex_minus_parts [OF ip(1,2) sg])
  have "no_digit_next (frac_text fp @ exp_text g ed)"
    by (simp add: no_digit_next_frac_text no_digit_next_exp_text)
  then have 2: "lex_int (ip @ frac_text fp @ exp_text g ed)
      = Some (ip, frac_text fp @ exp_text g ed)"
    by (rule lex_int_parts [OF ip])
  note 3 = lex_frac_parts [OF fp, of g ed]
  note 4 = lex_exp_parts [OF ed g]
  have 5: "drop (Suc 0) (frac_text fp) = fp"
    by (simp add: frac_text_def)
  show "lex_number (sg @ ip @ frac_text fp @ exp_text g ed)
           = Some (sg @ ip @ frac_text fp @ exp_text g ed, [])"
    by (simp add: lex_number_def 1 2 3 4)
  show "literal_value (sg @ ip @ frac_text fp @ exp_text g ed)
           = decimal_value (sg \<noteq> []) ip fp
               (if g = [cu (CHR ''-'')] then - int (units_to_nat ed) else int (units_to_nat ed))"
    by (simp add: literal_value_def 1 2 3 4 5 exponent_value_parts [OF ed g])
qed

lemma decimal_value_digits:
  assumes "0 < s" "strip_zeros (ip @ fp) = ds" "units_to_nat ds = s"
    "int (length (nat_to_string s)) + ex - int (length fp) + int (length (ip @ fp) - length ds) = n"
  shows "decimal_value neg ip fp ex = Finite neg (Decimal s n)"
  using assms by (simp add: decimal_value_def Let_def)

lemma Number_toString_reads_back:
  assumes s: "0 < s" "s mod 10 \<noteq> 0" and sg: "sg = [] \<or> sg = [cu (CHR ''-'')]"
  shows "lex_number (sg @ js_lit (Number_toString (Decimal s n)))
           = Some (sg @ js_lit (Number_toString (Decimal s n)), [])
       \<and> literal_value (sg @ js_lit (Number_toString (Decimal s n)))
           = Finite (sg \<noteq> []) (Decimal s n)"
proof -
  define D where "D = js_lit (nat_to_string s)"
  define k where "k = int (length (nat_to_string s))"
  define zero where "zero = cu (CHR ''0'')"
  have len: "length D = length (nat_to_string s)" by (simp add: D_def js_lit_def)
  have kD: "k = int (length D)" by (simp add: k_def len)
  have dig: "list_all is_digit_unit D" unfolding D_def by (rule js_lit_nat_digits)
  have ne: "D \<noteq> []" unfolding D_def by (rule js_lit_nat_not_Nil)
  have hd: "hd D \<noteq> zero" unfolding D_def zero_def by (rule hd_js_lit_nat [OF s(1)])
  have last: "last D \<noteq> zero" unfolding D_def zero_def by (rule last_js_lit_nat [OF s(2)])
  have val: "units_to_nat D = s" unfolding D_def by (rule units_to_nat_nat_to_string)
  have strip: "strip_zeros (ys @ D) = ys @ D" for ys
    using strip_zeros_keep [OF ne, of ys] last by (simp add: zero_def)
  have kpos: "0 < k" using ne by (simp add: kD)
  define E where "E = nat \<bar>n - 1\<bar>"
  define g where "g = (if n - 1 < 0 then [cu (CHR ''-'')] else [cu (CHR ''+'')])"
  define ed where "ed = js_lit (nat_to_string E)"
  have g: "g = [] \<or> g = [cu (CHR ''-'')] \<or> g = [cu (CHR ''+'')]" by (simp add: g_def)
  have edig: "list_all is_digit_unit ed" unfolding ed_def by (rule js_lit_nat_digits)
  have ene: "ed \<noteq> []" unfolding ed_def by (rule js_lit_nat_not_Nil)
  have eval: "(if g = [cu (CHR ''-'')] then - int (units_to_nat ed) else int (units_to_nat ed)) = n - 1"
    by (simp add: g_def ed_def units_to_nat_nat_to_string E_def cu_def)
  have etext: "js_lit ((if n - 1 < 0 then ''-'' else ''+'') @ nat_to_string (nat \<bar>n - 1\<bar>)) = g @ ed"
    by (simp add: g_def ed_def E_def js_lit_def)
  have etext': "js_lit (if n - 1 < 0 then ''-'' else ''+'') @ js_lit (nat_to_string (nat \<bar>n - 1\<bar>))
      = g @ ed"
    using etext by (simp only: js_lit_append)
  have parts: "lex_number (sg @ body) = Some (sg @ body, []) \<and> literal_value (sg @ body) = Finite (sg \<noteq> []) (Decimal s n)"
    if "body = ip @ frac_text fp @ exp_text g' ed'"
      "list_all is_digit_unit ip" "ip \<noteq> []" "hd ip = zero \<longrightarrow> ip = [zero]"
      "list_all is_digit_unit fp" "list_all is_digit_unit ed'"
      "g' = [] \<or> g' = [cu (CHR ''-'')] \<or> g' = [cu (CHR ''+'')]"
      "decimal_value (sg \<noteq> []) ip fp
         (if g' = [cu (CHR ''-'')] then - int (units_to_nat ed') else int (units_to_nat ed'))
       = Finite (sg \<noteq> []) (Decimal s n)"
    for body ip fp g' ed'
    using literal_parts [OF that(2,3) that(4) [unfolded zero_def] that(5,6) sg that(7)] that(1,8)
    by simp
  consider (int) "k \<le> n" "n \<le> 21"
    | (point) "\<not> k \<le> n" "0 < n" "n \<le> 21"
    | (small) "- 6 < n" "n \<le> 0"
    | (exp1) "\<not> (k \<le> n \<and> n \<le> 21)" "\<not> (0 < n \<and> n \<le> 21)" "\<not> (- 6 < n \<and> n \<le> 0)" "k = 1"
    | (expn) "\<not> (k \<le> n \<and> n \<le> 21)" "\<not> (0 < n \<and> n \<le> 21)" "\<not> (- 6 < n \<and> n \<le> 0)" "k \<noteq> 1"
    by linarith
  then show ?thesis
  proof cases
    case int
    define z where "z = nat (n - k)"
    have body: "js_lit (Number_toString (Decimal s n)) = (D @ replicate z zero) @ frac_text [] @ exp_text [] []"
      using int s(1)
      by (simp add: Number_toString_def Let_def k_def [symmetric] D_def js_lit_def z_def zero_def
          frac_text_def exp_text_def)
    show ?thesis
    proof (rule parts [OF body])
      show "list_all is_digit_unit (D @ replicate z zero)"
        using dig by (auto simp: zero_def is_digit_unit_def cu_def list_all_iff)
      show "D @ replicate z zero \<noteq> []" using ne by simp
      show "hd (D @ replicate z zero) = zero \<longrightarrow> D @ replicate z zero = [zero]"
        using ne hd by simp
      have "strip_zeros ((D @ replicate z zero) @ []) = D"
        using strip_zeros_zeros [of D z] strip [of "[]"] by (simp add: zero_def)
      moreover have "int (length (nat_to_string s)) + 0 - int (length ([] :: js_string))
          + int (length ((D @ replicate z zero) @ []) - length D) = n"
        using int by (simp add: z_def kD len)
      ultimately show "decimal_value (sg \<noteq> []) (D @ replicate z zero) []
         (if [] = [cu (CHR ''-'')] then - int (units_to_nat []) else int (units_to_nat []))
        = Finite (sg \<noteq> []) (Decimal s n)"
        using decimal_value_digits [OF s(1) _ val, of "D @ replicate z zero" "[]" 0 n]
        by (simp add: units_to_nat_def)
    qed simp_all
  next
    case point
    define m where "m = nat n"
    have m: "0 < m" "m < length D" using point by (simp_all add: m_def kD)
    have body: "js_lit (Number_toString (Decimal s n)) = take m D @ frac_text (drop m D) @ exp_text [] []"
      using point s(1) m
      by (simp add: Number_toString_def Let_def k_def [symmetric] D_def js_lit_def m_def
          frac_text_def exp_text_def take_map drop_map cu_def)
    show ?thesis
    proof (rule parts [OF body])
      show "list_all is_digit_unit (take m D)" "list_all is_digit_unit (drop m D)"
        using dig by (auto simp: list_all_iff dest: in_set_takeD in_set_dropD)
      show "take m D \<noteq> []" using m ne by simp
      show "hd (take m D) = zero \<longrightarrow> take m D = [zero]"
        using m hd by simp
      have "strip_zeros (take m D @ drop m D) = D"
        using strip [of "[]"] by simp
      moreover have "int (length (nat_to_string s)) + 0 - int (length (drop m D))
          + int (length (take m D @ drop m D) - length D) = n"
        using point m by (simp add: m_def len)
      ultimately show "decimal_value (sg \<noteq> []) (take m D) (drop m D)
         (if [] = [cu (CHR ''-'')] then - int (units_to_nat []) else int (units_to_nat []))
        = Finite (sg \<noteq> []) (Decimal s n)"
        using decimal_value_digits [OF s(1) _ val, of "take m D" "drop m D" 0 n]
        by (simp add: units_to_nat_def)
    qed simp_all
  next
    case small
    define z where "z = nat (- n)"
    have kn: "\<not> k \<le> n" using small kpos by simp
    have body: "js_lit (Number_toString (Decimal s n))
        = [zero] @ frac_text (replicate z zero @ D) @ exp_text [] []"
      using small s(1) kn ne
      by (simp add: Number_toString_def Let_def k_def [symmetric] D_def js_lit_def z_def zero_def
          frac_text_def exp_text_def)
    show ?thesis
    proof (rule parts [OF body])
      show "list_all is_digit_unit [zero]"
        by (simp add: zero_def is_digit_unit_def cu_def)
      show "list_all is_digit_unit (replicate z zero @ D)"
        using dig by (auto simp: zero_def is_digit_unit_def cu_def list_all_iff)
      have "strip_zeros ([zero] @ replicate z zero @ D) = replicate (Suc z) zero @ D"
        using strip [of "replicate (Suc z) zero"] by simp
      moreover have "units_to_nat (replicate (Suc z) zero @ D) = s"
        using units_to_nat_zeros [of "Suc z" D] val by (simp add: zero_def)
      moreover have "int (length (nat_to_string s)) + 0 - int (length (replicate z zero @ D))
          + int (length ([zero] @ replicate z zero @ D) - length (replicate (Suc z) zero @ D)) = n"
        using small by (simp add: z_def len)
      ultimately show "decimal_value (sg \<noteq> []) [zero] (replicate z zero @ D)
         (if [] = [cu (CHR ''-'')] then - int (units_to_nat []) else int (units_to_nat []))
        = Finite (sg \<noteq> []) (Decimal s n)"
        using decimal_value_digits [OF s(1), of "[zero]" "replicate z zero @ D"
            "replicate (Suc z) zero @ D" 0 n]
        by (simp add: units_to_nat_def)
    qed simp_all
  next
    case exp1
    have rng: "n \<le> - 6 \<or> 21 < n" using exp1(2,3) by linarith
    have "Number_toString (Decimal s n)
        = nat_to_string s @ ''e''
          @ ((if n - 1 < 0 then ''-'' else ''+'') @ nat_to_string (nat \<bar>n - 1\<bar>))"
      using exp1(4) s(1) rng
      by (auto simp: Number_toString_def Let_def k_def [symmetric])
    then have "js_lit (Number_toString (Decimal s n)) = D @ js_lit ''e'' @ g @ ed"
      by (simp only: js_lit_append etext' D_def)
    then have body: "js_lit (Number_toString (Decimal s n)) = D @ frac_text [] @ exp_text g ed"
      using ene by (simp add: frac_text_def exp_text_def js_lit_def)
    show ?thesis
    proof (rule parts [OF body dig ne _ _ edig g])
      show "hd D = zero \<longrightarrow> D = [zero]" using hd by simp
      show "list_all is_digit_unit []" by simp
      have "strip_zeros (D @ []) = D" using strip [of "[]"] by simp
      moreover have "int (length (nat_to_string s)) + (n - 1) - int (length ([] :: js_string))
          + int (length (D @ []) - length D) = n"
        using exp1 by (simp add: k_def)
      ultimately show "decimal_value (sg \<noteq> []) D []
         (if g = [cu (CHR ''-'')] then - int (units_to_nat ed) else int (units_to_nat ed))
        = Finite (sg \<noteq> []) (Decimal s n)"
        unfolding eval
        using decimal_value_digits [OF s(1) _ val, of D "[]" "n - 1" n]
        by simp
    qed
  next
    case expn
    have k2: "1 < length D" using expn(4) ne by (cases D) (simp_all add: kD)
    have rng: "n \<le> - 6 \<or> 21 < n" using expn(2,3) by linarith
    have "Number_toString (Decimal s n)
        = take 1 (nat_to_string s) @ ''.'' @ drop 1 (nat_to_string s) @ ''e''
          @ ((if n - 1 < 0 then ''-'' else ''+'') @ nat_to_string (nat \<bar>n - 1\<bar>))"
      using expn(1,4) s(1) rng
      by (auto simp: Number_toString_def Let_def k_def [symmetric])
    then have "js_lit (Number_toString (Decimal s n))
        = js_lit (take 1 (nat_to_string s)) @ js_lit ''.'' @ js_lit (drop 1 (nat_to_string s))
          @ js_lit ''e'' @ g @ ed"
      by (simp only: js_lit_append etext')
    moreover have "js_lit (take 1 (nat_to_string s)) = take 1 D"
      "js_lit (drop 1 (nat_to_string s)) = drop 1 D"
      by (simp_all add: D_def js_lit_def take_map drop_map)
    moreover have "drop 1 D \<noteq> []" using k2 by simp
    ultimately have body: "js_lit (Number_toString (Decimal s n))
        = take 1 D @ frac_text (drop 1 D) @ exp_text g ed"
      using ene by (simp add: frac_text_def exp_text_def js_lit_def)
    show ?thesis
    proof (rule parts [OF body _ _ _ _ edig g])
      show "list_all is_digit_unit (take 1 D)" "list_all is_digit_unit (drop 1 D)"
        using dig by (auto simp: list_all_iff dest: in_set_takeD in_set_dropD)
      show "take 1 D \<noteq> []" using ne by simp
      show "hd (take 1 D) = zero \<longrightarrow> take 1 D = [zero]"
        using hd by simp
      have "strip_zeros (take 1 D @ drop 1 D) = D"
        using strip [of "[]"] by simp
      moreover have "int (length (nat_to_string s)) + (n - 1) - int (length (drop 1 D))
          + int (length (take 1 D @ drop 1 D) - length D) = n"
        using k2 by (simp add: len)
      ultimately show "decimal_value (sg \<noteq> []) (take 1 D) (drop 1 D)
         (if g = [cu (CHR ''-'')] then - int (units_to_nat ed) else int (units_to_nat ed))
        = Finite (sg \<noteq> []) (Decimal s n)"
        unfolding eval
        using decimal_value_digits [OF s(1) _ val, of "take 1 D" "drop 1 D" "n - 1" n]
        by simp
    qed
  qed
qed

text \<open>
  In \<open>decimal_numbers\<close> every finite number is printed as a literal that reads as the same
  number: every payload of finite numbers is \<open>json_safe\<close>, as far as its numbers go.
\<close>

lemma finite_number_reads_back:
  assumes "finite_number x"
  shows "number_reads_back decimal_numbers x"
proof -
  from assms obtain neg s n where x: "x = Finite neg (Decimal s n)"
    by (auto simp: finite_number_def split: json_number.splits js_number.splits)
  show ?thesis
  proof (cases "s = 0")
    case True
    with assms x have "x = Finite False (Decimal 0 0)" by (simp add: finite_number_def)
    then show ?thesis
      by (simp add: number_reads_back_def decimal_numbers_def number_to_text_def
          Number_toString_def js_lit_def cu_def lex_number_def lex_minus_def lex_int_def
          lex_frac_def lex_exp_def literal_value_def decimal_value_def exponent_value_def
          strip_zeros_def units_to_nat_def)
  next
    case False
    with assms x have s: "0 < s" "s mod 10 \<noteq> 0" by (simp_all add: finite_number_def)
    define sg where "sg = (if neg then [cu (CHR ''-'')] else [])"
    have "sg = [] \<or> sg = [cu (CHR ''-'')]" by (simp add: sg_def)
    from Number_toString_reads_back [OF s this, of n] False show ?thesis
      by (simp add: number_reads_back_def decimal_numbers_def number_to_text_def x sg_def
          js_lit_append js_lit_def [of "''-''"] js_lit_def [of "[]"] split: if_splits)
  qed
qed

section \<open>Properties of the message codec\<close>

lemma js_get_js_set: "js_get (js_set obj k v) k' = (if k' = k then Some v else js_get obj k')"
proof (cases "map_of obj k")
  case None
  then have "k \<notin> fst ` set obj" by (simp add: map_of_eq_None_iff)
  with None show ?thesis by (simp add: js_set_def js_get_def map_of_js_insert)
next
  case (Some old)
  then show ?thesis by (simp add: js_set_def js_get_def map_of_js_update)
qed

lemma set_js_set: "set (js_set obj k v) \<subseteq> insert (k, v) (set obj)"
  using set_js_update [of obj k v]
  by (simp add: js_set_def set_js_insert split: option.splits)

lemma distinct_js_set: "distinct (map fst obj) \<Longrightarrow> distinct (map fst (js_set obj k v))"
  by (simp add: js_set_def js_get_def map_fst_js_update distinct_js_insert map_of_eq_None_iff
      split: option.splits)

lemma keys_ordered_js_set:
  "keys_ordered (map fst obj) \<Longrightarrow> keys_ordered (map fst (js_set obj k v))"
  by (simp add: js_set_def map_fst_js_update keys_ordered_js_insert split: option.splits)

lemma json_safe_js_set:
  assumes "json_safe nf (JObj obj)" "json_safe nf v"
  shows "json_safe nf (JObj (js_set obj k v))"
  using assms set_js_set [of obj k v] by (auto simp: distinct_js_set keys_ordered_js_set)

lemma JSON_stringify_JObj_start: "\<exists>r. JSON_stringify nf (JObj obj) = cu (CHR ''{'') # r"
  by (simp add: js_lit_def)

lemma isAmpMessage_iff: "isAmpMessage m \<longleftrightarrow> (\<exists>s. m = JS_string s \<and> prefix (js_lit ''amp-'') s)"
  by (cases m) (simp_all add: isAmpMessage_def AMP_MESSAGE_PREFIX_def indexOf_zero_iff)

lemma deserializeMessage_payload:
  assumes "cu (CHR ''{'') \<notin> set v" "json_safe nf (JObj obj)"
  shows "deserializeMessage nf
           (JS_string (js_lit ''amp-'' @ v @ JSON_stringify nf (JObj obj)) :: 'a js_value)
    = Inr (JObj obj)"
proof -
  obtain r where r: "JSON_stringify nf (JObj obj) = cu (CHR ''{'') # r"
    using JSON_stringify_JObj_start by blast
  define p where "p = js_lit ''amp-'' @ v"
  have s: "js_lit ''amp-'' @ v @ JSON_stringify nf (JObj obj) = p @ JSON_stringify nf (JObj obj)"
    by (simp add: p_def del: JSON_stringify.simps)
  have amp: "isAmpMessage (JS_string (p @ JSON_stringify nf (JObj obj)) :: 'a js_value)"
    by (simp add: isAmpMessage_iff p_def del: JSON_stringify.simps)
  have "cu (CHR ''{'') \<notin> set p" using assms(1) by (auto simp: p_def js_lit_def cu_def)
  then have "indexOf (p @ cu (CHR ''{'') # r) [cu (CHR ''{'')] = Some (length p)"
    by (rule indexOf_skip)
  then have pos: "indexOf (p @ JSON_stringify nf (JObj obj)) (js_lit ''{'') = Some (length p)"
    by (simp only: r js_lit_single)
  have "substr (p @ JSON_stringify nf (JObj obj)) (length p) = JSON_stringify nf (JObj obj)"
    by (simp add: substr_def del: JSON_stringify.simps)
  with amp pos JSON_parse_stringify [OF assms(2)]
  have "deserializeMessage nf (JS_string (p @ JSON_stringify nf (JObj obj)) :: 'a js_value)
      = Inr (JObj obj)"
    by (simp add: deserializeMessage_def del: JSON_stringify.simps)
  then show ?thesis by (simp only: s)
qed

text \<open>
  C1. Round trip: for every message kind \<open>t\<close> and sentinel \<open>s\<close> (any strings of code
  units, so in particular the kinds of \<open>MessageType\<close> and the non-empty sentinels) and
  every JSON-safe mapping \<open>d\<close> (\<open>json_safe\<close>: a mapping whose numbers are printed as
  literals that read as the same number, which for JavaScript's doubles are the finite
  numbers), \<open>deserializeMessage\<close> of \<open>serializeMessage(t, s, d)\<close> is an object whose
  \<open>type\<close> is \<open>t\<close>, whose \<open>sentinel\<close> is \<open>s\<close>, and which has every other field of \<open>d\<close>
  with the value it has in \<open>d\<close>. This holds in every number system \<open>nf\<close>.
\<close>

theorem serializeMessage_roundtrip:
  assumes "json_safe nf (JObj d)"
  shows "\<exists>m. deserializeMessage nf (JS_string (fst (serializeMessage nf t s (Some d) None)))
               = Inr (JObj m)
           \<and> js_get m (js_lit ''type'') = Some (JStr t)
           \<and> js_get m (js_lit ''sentinel'') = Some (JStr s)
           \<and> (\<forall>k. k \<noteq> js_lit ''type'' \<and> k \<noteq> js_lit ''sentinel'' \<longrightarrow> js_get m k = js_get d k)"
proof -
  let ?m = "js_set (js_set d (js_lit ''type'') (JStr t)) (js_lit ''sentinel'') (JStr s)"
  have safe: "json_safe nf (JObj ?m)"
    by (intro json_safe_js_set assms) simp_all
  have "fst (serializeMessage nf t s (Some d) None)
      = js_lit ''amp-'' @ [] @ JSON_stringify nf (JObj ?m)"
    by (simp add: serializeMessage_def AMP_MESSAGE_PREFIX_def truthy_def Let_def
        del: JSON_stringify.simps)
  moreover have "deserializeMessage nf (JS_string (js_lit ''amp-'' @ [] @ JSON_stringify nf (JObj ?m)))
      = Inr (JObj ?m)"
    by (rule deserializeMessage_payload [OF _ safe]) simp
  ultimately have "deserializeMessage nf (JS_string (fst (serializeMessage nf t s (Some d) None)))
      = Inr (JObj ?m)"
    by simp
  moreover have "js_get ?m (js_lit ''type'') = Some (JStr t)"
    "js_get ?m (js_lit ''sentinel'') = Some (JStr s)"
    by (simp_all add: js_get_js_set js_lit_def cu_def)
  moreover have "\<forall>k. k \<noteq> js_lit ''type'' \<and> k \<noteq> js_lit ''sentinel'' \<longrightarrow> js_get ?m k = js_get d k"
    by (simp add: js_get_js_set)
  ultimately show ?thesis by blast
qed

text \<open>The numbers and keys of the example payload.\<close>

lemmas number_eval =
  number_reads_back_def decimal_numbers_def number_to_text_def Number_toString_def
  js_lit_def cu_def lex_number_def lex_minus_def lex_int_def lex_frac_def lex_exp_def lex_sign_def
  is_digit_unit_def literal_value_def decimal_value_def exponent_value_def strip_zeros_def units_to_nat_def digit_char_def Let_def
  nat_to_string.simps

lemma example_numbers:
  "number_reads_back decimal_numbers (Finite False (Decimal 3005 3))"
  "number_reads_back decimal_numbers (Finite False (Decimal 5 0))"
  "number_reads_back decimal_numbers (Finite True (Decimal 25 3))"
  by (simp_all add: number_eval)

lemma example_keys:
  "array_index (js_lit ''width'') = None"
  "array_index (js_lit ''ratio'') = None"
  "array_index (js_lit ''height'') = None"
  by (simp_all add: array_index_def js_lit_def cu_def is_digit_unit_def)

lemma example_data_safe: "json_safe decimal_numbers (JObj example_data)"
  by (simp add: example_data_def example_numbers keys_ordered_def key_before_def example_keys)
    (simp add: js_lit_def cu_def)

text \<open>
  The round trip in \<open>decimal_numbers\<close> for a size request whose payload has a fraction, a
  number below one and a negative number.
\<close>

theorem serializeMessage_roundtrip_witness:
  "json_safe decimal_numbers (JObj example_data)
   \<and> (\<exists>m. deserializeMessage decimal_numbers
            (JS_string (fst (serializeMessage decimal_numbers (js_lit ''embed-size'')
               (js_lit ''0-34821193'') (Some example_data) None)) :: unit js_value)
          = Inr (JObj m)
        \<and> js_get m (js_lit ''type'') = Some (JStr (js_lit ''embed-size''))
        \<and> js_get m (js_lit ''sentinel'') = Some (JStr (js_lit ''0-34821193''))
        \<and> js_get m (js_lit ''width'') = Some (JNum (Finite False (Decimal 3005 3)))
        \<and> js_get m (js_lit ''ratio'') = Some (JNum (Finite False (Decimal 5 0)))
        \<and> js_get m (js_lit ''height'') = Some (JNum (Finite True (Decimal 25 3))))"
proof -
  from serializeMessage_roundtrip [OF example_data_safe,
      where t = "js_lit ''embed-size''" and s = "js_lit ''0-34821193''"]
  obtain m where m:
    "deserializeMessage decimal_numbers
       (JS_string (fst (serializeMessage decimal_numbers (js_lit ''embed-size'')
          (js_lit ''0-34821193'') (Some example_data) None)) :: unit js_value)
     = Inr (JObj m)"
    "js_get m (js_lit ''type'') = Some (JStr (js_lit ''embed-size''))"
    "js_get m (js_lit ''sentinel'') = Some (JStr (js_lit ''0-34821193''))"
    "\<forall>k. k \<noteq> js_lit ''type'' \<and> k \<noteq> js_lit ''sentinel'' \<longrightarrow> js_get m k = js_get example_data k"
    by blast
  have "js_get m (js_lit ''width'') = js_get example_data (js_lit ''width'')"
    "js_get m (js_lit ''ratio'') = js_get example_data (js_lit ''ratio'')"
    "js_get m (js_lit ''height'') = js_get example_data (js_lit ''height'')"
    by (rule m(4) [rule_format], simp add: js_lit_def cu_def)+
  then have "js_get m (js_lit ''width'') = Some (JNum (Finite False (Decimal 3005 3)))"
    "js_get m (js_lit ''ratio'') = Some (JNum (Finite False (Decimal 5 0)))"
    "js_get m (js_lit ''height'') = Some (JNum (Finite True (Decimal 25 3)))"
    by (simp_all add: js_get_def example_data_def js_lit_def cu_def)
  with example_data_safe m(1,2,3) show ?thesis by blast
qed

text \<open>The text of that message.\<close>

lemma example_data_text:
  \<open>fst (serializeMessage decimal_numbers (js_lit ''embed-size'') (js_lit ''0-34821193'')
          (Some example_data) None)
   = js_lit ''amp-{"width":300.5,"ratio":0.5,"height":-250,"type":"embed-size","sentinel":"0-34821193"}''\<close>
  by (simp add: serializeMessage_def example_data_def truthy_def AMP_MESSAGE_PREFIX_def
      js_set_def js_get_def key_before_def array_index_def is_digit_unit_def
      quote_def quote_unit_def is_high_surrogate_def is_low_surrogate_def
      decimal_numbers_def number_to_text_def Number_toString_def digit_char_def nat_to_string.simps
      js_lit_def cu_def Let_def)

text \<open>The message of the comment on \<open>serializeMessage\<close>, read back.\<close>

lemma deserializeMessage_source_example:
  \<open>deserializeMessage decimal_numbers
     (JS_string (js_lit ''amp-011481323099490{"type":"position","sentinel":"12345","foo":"bar"}''))
   = Inr (JObj [(js_lit ''type'', JStr (js_lit ''position'')),
                (js_lit ''sentinel'', JStr (js_lit ''12345'')),
                (js_lit ''foo'', JStr (js_lit ''bar''))])\<close>
proof -
  let ?obj = "[(js_lit ''type'', JStr (js_lit ''position'')),
               (js_lit ''sentinel'', JStr (js_lit ''12345'')),
               (js_lit ''foo'', JStr (js_lit ''bar''))] :: (js_string \<times> json_number json) list"
  have k: "array_index (js_lit ''type'') = None" "array_index (js_lit ''sentinel'') = None"
    "array_index (js_lit ''foo'') = None"
    by (simp_all add: array_index_def js_lit_def cu_def is_digit_unit_def)
  have safe: "json_safe decimal_numbers (JObj ?obj)"
    by (simp add: keys_ordered_def key_before_def k) (simp add: js_lit_def cu_def)
  have "deserializeMessage decimal_numbers
          (JS_string (js_lit ''amp-'' @ js_lit ''011481323099490''
             @ JSON_stringify decimal_numbers (JObj ?obj)))
      = Inr (JObj ?obj)"
    by (rule deserializeMessage_payload [OF _ safe]) (simp add: js_lit_def cu_def)
  then show ?thesis
    by (simp add: quote_def quote_unit_def is_high_surrogate_def is_low_surrogate_def
        js_lit_def cu_def)
qed

text \<open>
  Keys that are array indices are listed first and in ascending order; \<open>01\<close> is no array
  index; an assignment to an existing key keeps its place.
\<close>

lemma js_set_array_index_example:
  "js_set [(js_lit ''2'', a), (js_lit ''b'', b)] (js_lit ''10'') c
     = [(js_lit ''2'', a), (js_lit ''10'', c), (js_lit ''b'', b)]"
  "js_set [(js_lit ''2'', a), (js_lit ''b'', b)] (js_lit ''1'') c
     = [(js_lit ''1'', c), (js_lit ''2'', a), (js_lit ''b'', b)]"
  "js_set [(js_lit ''2'', a), (js_lit ''b'', b)] (js_lit ''01'') c
     = [(js_lit ''2'', a), (js_lit ''b'', b), (js_lit ''01'', c)]"
  "js_set [(js_lit ''2'', a), (js_lit ''b'', b)] (js_lit ''b'') c
     = [(js_lit ''2'', a), (js_lit ''b'', c)]"
  by (simp_all add: js_set_def js_get_def key_before_def array_index_def units_to_nat_def
      is_digit_unit_def js_lit_def cu_def)

text \<open>
  Code units above 255 and surrogate pairs are printed as they are, a surrogate on its own
  and a control character are escaped, and the escape \<open>\u0141\<close> reads as the code unit \<open>0x141\<close>.
\<close>

lemma quote_examples:
  "quote [0x141] = [cu (CHR 0x22), 0x141, cu (CHR 0x22)]"
  "quote [0xD83D, 0xDE00] = [cu (CHR 0x22), 0xD83D, 0xDE00, cu (CHR 0x22)]"
  "quote [0xDE00, 0xD83D] = cu (CHR 0x22) # cu (CHR 0x5C) # js_lit ''ude00''
       @ cu (CHR 0x5C) # js_lit ''ud83d'' @ [cu (CHR 0x22)]"
  "quote [0x0A, 0x1F] = cu (CHR 0x22) # cu (CHR 0x5C) # js_lit ''n''
       @ cu (CHR 0x5C) # js_lit ''u001f'' @ [cu (CHR 0x22)]"
  by (simp_all add: quote_def quote_unit_def unicode_escape_def hex_unit_def
      is_high_surrogate_def is_low_surrogate_def js_lit_def cu_def)

lemma JSON_parse_unicode_example:
  "JSON_parse nf (cu (CHR 0x22) # cu (CHR 0x5C) # js_lit ''u0141'' @ [cu (CHR 0x22)])
     = Inr (JStr [0x141])"
proof -
  have "lex_string (cu (CHR 0x5C) # js_lit ''u0141'' @ [cu (CHR 0x22)]) = Some ([0x141], [])"
    by (simp add: js_lit_def cu_def hex4_def hex_val_def)
  then have "tokenize nf (cu (CHR 0x22) # cu (CHR 0x5C) # js_lit ''u0141'' @ [cu (CHR 0x22)])
      = Some [TScalar (JStr [0x141])]"
    by (subst tokenize.simps) (simp add: is_space_def cu_def tokenize.simps(1))
  then show ?thesis by (simp add: JSON_parse_def)
qed

text \<open>Literals with a fraction and an exponent, read in \<open>decimal_numbers\<close>.\<close>

lemma literal_value_examples:
  "literal_value (js_lit ''0.50'') = Finite False (Decimal 5 0)"
  "literal_value (js_lit ''-1e3'') = Finite True (Decimal 1 4)"
  "literal_value (js_lit ''12.5E-3'') = Finite False (Decimal 125 (- 1))"
  "literal_value (js_lit ''-0'') = Finite False (Decimal 0 0)"
  by (simp_all add: number_eval)

text \<open>
  \<open>NaN\<close> and the infinities are printed as \<open>null\<close>, and do not read back.
\<close>

lemma not_finite_examples:
  "number_to_text NaN = js_lit ''null''"
  "\<not> number_reads_back decimal_numbers NaN"
  "\<not> number_reads_back decimal_numbers (Infinity neg)"
  by (simp_all add: number_reads_back_def decimal_numbers_def number_to_text_def lex_number_def
      lex_minus_def lex_int_def js_lit_def cu_def is_digit_unit_def)

lemma prefix_take_iff: "prefix p s \<longleftrightarrow> take (length p) s = p"
proof
  assume "prefix p s"
  then obtain zs where "s = p @ zs" by (auto simp: prefix_def)
  then show "take (length p) s = p" by simp
next
  assume "take (length p) s = p"
  then have "s = p @ drop (length p) s"
    using append_take_drop_id [of "length p" s] by simp
  then show "prefix p s" by (rule prefixI)
qed

lemma prefix_amp_iff: "prefix (js_lit ''amp-'') s \<longleftrightarrow> take 4 s = js_lit ''amp-''"
proof -
  have l: "length (js_lit ''amp-'') = 4" by (simp add: js_lit_def)
  show ?thesis using prefix_take_iff [of "js_lit ''amp-''" s] unfolding l .
qed

lemma deserializeMessage_string:
  assumes "take 4 s = js_lit ''amp-''"
  shows "deserializeMessage nf (JS_string s) =
    (case indexOf s (js_lit ''{'') of
       None \<Rightarrow> Inr JNull
     | Some startPos \<Rightarrow>
         (case JSON_parse nf (substr s startPos) of Inr v \<Rightarrow> Inr v | Inl e \<Rightarrow> Inr JNull))"
  using assms by (simp add: deserializeMessage_def isAmpMessage_iff prefix_amp_iff)

lemma deserializeMessage_not_amp:
  "\<not> isAmpMessage m \<Longrightarrow> deserializeMessage nf m = Inr JNull"
  by (simp add: deserializeMessage_def)

text \<open>
  C3. Foreign traffic: \<open>isAmpMessage\<close> is true exactly when its argument is a string that
  starts with \<open>amp-\<close> at position 0; for every other value (not a string, or a string
  that does not start so) \<open>isAmpMessage\<close> is false and \<open>deserializeMessage\<close> returns
  \<open>null\<close>.
\<close>

theorem isAmpMessage_foreign:
  "(isAmpMessage m \<longleftrightarrow>
      (\<exists>s. m = JS_string s \<and> indexOf s (js_lit ''amp-'') = Some 0 \<and> take 4 s = js_lit ''amp-''))
   \<and> ((\<forall>s. m = JS_string s \<longrightarrow> take 4 s \<noteq> js_lit ''amp-'')
        \<longrightarrow> \<not> isAmpMessage m \<and> deserializeMessage nf m = Inr JNull)"
proof -
  have pre: "prefix (js_lit ''amp-'') s \<longleftrightarrow> take 4 s = js_lit ''amp-''" for s
    using prefix_amp_iff by simp
  have iff: "isAmpMessage m \<longleftrightarrow>
      (\<exists>s. m = JS_string s \<and> indexOf s (js_lit ''amp-'') = Some 0 \<and> take 4 s = js_lit ''amp-'')"
    by (auto simp: isAmpMessage_iff indexOf_zero_iff pre)
  then show ?thesis
    by (auto simp: deserializeMessage_not_amp)
qed

text \<open>A string without the prefix, one with the prefix at position 1, a value that is no string, and a message.\<close>

theorem isAmpMessage_foreign_witness:
  "\<not> isAmpMessage (JS_string (js_lit ''hello{}'') :: unit js_value)
   \<and> deserializeMessage decimal_numbers (JS_string (js_lit ''hello{}'') :: unit js_value) = Inr JNull
   \<and> \<not> isAmpMessage (JS_string (js_lit '' amp-{}'') :: unit js_value)
   \<and> deserializeMessage decimal_numbers (JS_string (js_lit '' amp-{}'') :: unit js_value) = Inr JNull
   \<and> \<not> isAmpMessage (JS_other () :: unit js_value)
   \<and> deserializeMessage decimal_numbers (JS_other () :: unit js_value) = Inr JNull
   \<and> isAmpMessage (JS_string (js_lit ''amp-{}'') :: unit js_value)"
  using isAmpMessage_foreign [of "JS_string (js_lit ''hello{}'') :: unit js_value" decimal_numbers]
    isAmpMessage_foreign [of "JS_string (js_lit '' amp-{}'') :: unit js_value" decimal_numbers]
    isAmpMessage_foreign [of "JS_other () :: unit js_value" decimal_numbers]
    isAmpMessage_foreign [of "JS_string (js_lit ''amp-{}'') :: unit js_value" decimal_numbers]
  by (simp add: js_lit_def cu_def)

lemma JSON_parse_not_json: "JSON_parse nf (js_lit ''{not json'') = Inl SyntaxError"
proof -
  have "tokenize nf (js_lit ''not json'') = None"
    unfolding js_lit_def list.map
    by (subst tokenize.simps) (simp add: is_space_def is_digit_unit_def cu_def js_lit_def)
  then have "tokenize nf (js_lit ''{not json'') = None"
    using tokenize_punct(1) [of nf "js_lit ''not json''"] by (simp add: js_lit_def)
  then show ?thesis by (simp add: JSON_parse_def)
qed

text \<open>
  C4. Malformed payloads: for a string that starts with \<open>amp-\<close> and has no \<open>{\<close>, or whose
  text from the first \<open>{\<close> on makes \<open>JSON.parse\<close> throw, \<open>deserializeMessage\<close> returns
  \<open>null\<close>; it raises for no argument at all; and on \<open>amp-{not json\<close> it returns \<open>null\<close>.
\<close>

theorem deserializeMessage_malformed:
  "(take 4 s = js_lit ''amp-''
      \<and> (indexOf s (js_lit ''{'') = None
          \<or> (\<exists>startPos e. indexOf s (js_lit ''{'') = Some startPos
                \<and> JSON_parse nf (substr s startPos) = Inl e))
      \<longrightarrow> deserializeMessage nf (JS_string s) = Inr JNull)
   \<and> (\<exists>v. deserializeMessage nf m = Inr v)
   \<and> deserializeMessage nf (JS_string (js_lit ''amp-'' @ js_lit ''{not json'')) = Inr JNull"
proof (intro conjI impI)
  assume a: "take 4 s = js_lit ''amp-''
      \<and> (indexOf s (js_lit ''{'') = None
          \<or> (\<exists>startPos e. indexOf s (js_lit ''{'') = Some startPos
                \<and> JSON_parse nf (substr s startPos) = Inl e))"
  then show "deserializeMessage nf (JS_string s) = Inr JNull"
    by (auto simp: deserializeMessage_string)
next
  show "\<exists>v. deserializeMessage nf m = Inr v"
    by (cases m) (auto simp: deserializeMessage_def split: option.splits sum.splits)
next
  define msg where "msg = js_lit ''amp-'' @ js_lit ''{not json''"
  have t: "take 4 msg = js_lit ''amp-''"
    by (simp add: msg_def js_lit_def)
  have 2: "indexOf msg (js_lit ''{'') = Some 4"
    by (simp add: msg_def js_lit_def cu_def)
  have 3: "substr msg 4 = js_lit ''{not json''"
    by (simp add: msg_def substr_def js_lit_def)
  have "deserializeMessage nf (JS_string msg) = Inr JNull"
    unfolding deserializeMessage_string [OF t] 2 by (simp add: 3 JSON_parse_not_json)
  then show "deserializeMessage nf (JS_string (js_lit ''amp-'' @ js_lit ''{not json'')) = Inr JNull"
    by (simp only: msg_def)
qed

text \<open>A tagged string with no brace, and one whose payload is not JSON.\<close>

theorem deserializeMessage_malformed_witness:
  "take 4 (js_lit ''amp-1.0 hello'') = js_lit ''amp-''
   \<and> indexOf (js_lit ''amp-1.0 hello'') (js_lit ''{'') = None
   \<and> deserializeMessage decimal_numbers (JS_string (js_lit ''amp-1.0 hello'') :: unit js_value)
       = Inr JNull
   \<and> take 4 (js_lit ''amp-{not json'') = js_lit ''amp-''
   \<and> indexOf (js_lit ''amp-{not json'') (js_lit ''{'') = Some 4
   \<and> JSON_parse decimal_numbers (substr (js_lit ''amp-{not json'') 4) = Inl SyntaxError
   \<and> deserializeMessage decimal_numbers (JS_string (js_lit ''amp-{not json'') :: unit js_value)
       = Inr JNull"
proof -
  have a: "take 4 (js_lit ''amp-1.0 hello'') = js_lit ''amp-''"
    "indexOf (js_lit ''amp-1.0 hello'') (js_lit ''{'') = None"
    by (simp_all add: js_lit_def cu_def)
  have s: "substr (js_lit ''amp-{not json'') 4 = js_lit ''{not json''"
    by (simp add: substr_def js_lit_def)
  have b: "take 4 (js_lit ''amp-{not json'') = js_lit ''amp-''"
    "indexOf (js_lit ''amp-{not json'') (js_lit ''{'') = Some 4"
    "JSON_parse decimal_numbers (substr (js_lit ''amp-{not json'') 4) = Inl SyntaxError"
    unfolding s by (simp_all add: JSON_parse_not_json) (simp_all add: js_lit_def cu_def)
  from a deserializeMessage_malformed [where s = "js_lit ''amp-1.0 hello''"
      and nf = decimal_numbers and ?'b = unit]
  have "deserializeMessage decimal_numbers (JS_string (js_lit ''amp-1.0 hello'') :: unit js_value)
      = Inr JNull"
    by blast
  moreover from b deserializeMessage_malformed [where s = "js_lit ''amp-{not json''"
      and nf = decimal_numbers and ?'b = unit]
  have "deserializeMessage decimal_numbers (JS_string (js_lit ''amp-{not json'') :: unit js_value)
      = Inr JNull"
    by blast
  ultimately show ?thesis using a b by simp
qed

text \<open>
  C8. \<open>serializeMessage\<close> writes \<open>type\<close> and \<open>sentinel\<close> into the object it is given and
  leaves every other key as it was; the string it returns is \<open>amp-\<close>, then the version
  token if there is one, then the JSON text of the object as written; it starts with
  \<open>amp-\<close>, and \<open>indexOf\<close> finds the prefix at position 0.
\<close>

theorem serializeMessage_effect:
  "(case serializeMessage nf t s (Some d) rtvVersion of
      (out, d') \<Rightarrow>
        js_get d' (js_lit ''type'') = Some (JStr t)
      \<and> js_get d' (js_lit ''sentinel'') = Some (JStr s)
      \<and> (\<forall>k. k \<noteq> js_lit ''type'' \<and> k \<noteq> js_lit ''sentinel'' \<longrightarrow> js_get d' k = js_get d k)
      \<and> out = js_lit ''amp-'' @ (case rtvVersion of None \<Rightarrow> [] | Some v \<Rightarrow> v)
                 @ JSON_stringify nf (JObj d')
      \<and> take 4 out = js_lit ''amp-''
      \<and> indexOf out AMP_MESSAGE_PREFIX = Some 0)"
proof -
  have v: "(case truthy rtvVersion of None \<Rightarrow> [] | Some v \<Rightarrow> v)
         = (case rtvVersion of None \<Rightarrow> [] | Some v \<Rightarrow> v)"
    by (simp add: truthy_def split: option.splits)
  have ne: "js_lit ''type'' \<noteq> js_lit ''sentinel''"
    by (simp add: js_lit_def cu_def)
  have l: "length (js_lit ''amp-'') = 4"
    by (simp add: js_lit_def)
  show ?thesis
    by (simp add: serializeMessage_def Let_def js_get_js_set v ne l AMP_MESSAGE_PREFIX_def
        indexOf_zero_iff del: JSON_stringify.simps)
qed

text \<open>The example of the source's comment, on an object that already has a \<open>type\<close>.\<close>

theorem serializeMessage_effect_witness:
  "(case serializeMessage decimal_numbers (js_lit ''position'') (js_lit ''12345'')
          (Some [(js_lit ''foo'', JStr (js_lit ''bar'')), (js_lit ''type'', JNull)])
          (Some (js_lit ''011481323099490'')) of
      (out, d') \<Rightarrow>
        js_get d' (js_lit ''type'') = Some (JStr (js_lit ''position''))
      \<and> js_get d' (js_lit ''sentinel'') = Some (JStr (js_lit ''12345''))
      \<and> js_get d' (js_lit ''foo'') = Some (JStr (js_lit ''bar''))
      \<and> js_get d' (js_lit ''other'') = None
      \<and> out = js_lit ''amp-011481323099490'' @ JSON_stringify decimal_numbers (JObj d')
      \<and> take 4 out = js_lit ''amp-''
      \<and> indexOf out AMP_MESSAGE_PREFIX = Some 0)"
proof -
  have ne: "js_lit ''foo'' \<noteq> js_lit ''type''" "js_lit ''foo'' \<noteq> js_lit ''sentinel''"
    "js_lit ''other'' \<noteq> js_lit ''type''" "js_lit ''other'' \<noteq> js_lit ''sentinel''"
    "js_lit ''other'' \<noteq> js_lit ''foo''"
    by (simp_all add: js_lit_def cu_def)
  have l: "js_lit ''amp-'' @ js_lit ''011481323099490'' = js_lit ''amp-011481323099490''"
    by (simp add: js_lit_def)
  show ?thesis
    using serializeMessage_effect [where nf = decimal_numbers and t = "js_lit ''position''"
        and s = "js_lit ''12345''"
        and d = "[(js_lit ''foo'', JStr (js_lit ''bar'')), (js_lit ''type'', JNull)]"
        and rtvVersion = "Some (js_lit ''011481323099490'')"]
    by (auto simp: js_get_def ne l [symmetric] simp del: JSON_stringify.simps split: prod.splits)
qed

section \<open>Properties of the bootstrap URL\<close>

lemma indexOf_question: "indexOf url ''?'' \<noteq> None \<longleftrightarrow> CHR ''?'' \<in> set url"
  using indexOf_None_iff [of url "CHR ''?''"] by simp

text \<open>
  C2. With a custom bootstrap URL declared: a URL that contains \<open>?\<close> raises; a URL on the
  origin of the hosting document raises, unless its host is \<open>localhost\<close> and strict mode is
  off; and when the URL passes the HTTPS test and these two checks, the result is the URL
  followed by \<open>?\<close> and the version token.
\<close>

theorem getCustomBootstrapBaseUrl_checks:
  assumes "meta_content (windows st w) = Some url"
  shows "(CHR ''?'' \<in> set url \<longrightarrow> (\<exists>e. getCustomBootstrapBaseUrl cfg st w strict = Inl e))
     \<and> (origin (parseUrl cfg url) = origin (parseUrl cfg (href (location (windows st w))))
          \<and> \<not> (hostname (parseUrl cfg url) = ''localhost'' \<and> \<not> strict)
        \<longrightarrow> (\<exists>e. getCustomBootstrapBaseUrl cfg st w strict = Inl e))
     \<and> (isSecureUrl cfg url \<and> CHR ''?'' \<notin> set url
          \<and> (hostname (parseUrl cfg url) = ''localhost'' \<and> \<not> strict
              \<or> origin (parseUrl cfg url) \<noteq> origin (parseUrl cfg (href (location (windows st w)))))
        \<longrightarrow> getCustomBootstrapBaseUrl cfg st w strict
              = Inr (Some (url @ ''?$internalRuntimeVersion$'')))"
  unfolding getCustomBootstrapBaseUrl_def assertHttpsUrl_def indexOf_question Let_def
  using assms by auto

lemma example_windows [simp]:
  "windows (with_meta example_state 0 c) 0 = example_window\<lparr>meta_content := Some c\<rparr>"
  by (simp add: with_meta_def example_state_def)

text \<open>
  A URL with a query string; a same-origin \<open>localhost\<close> URL in strict mode; the same URL
  with strict mode off; a URL on another origin in strict mode.
\<close>

theorem getCustomBootstrapBaseUrl_checks_witness:
  "(\<exists>e. getCustomBootstrapBaseUrl example_config
          (with_meta example_state 0 ''https://cdn.example.com/frame.html?x=1'') 0 False = Inl e)
   \<and> (\<exists>e. getCustomBootstrapBaseUrl example_config
          (with_meta example_state 0 ''https://localhost:8000/frame.html'') 0 True = Inl e)
   \<and> getCustomBootstrapBaseUrl example_config
          (with_meta example_state 0 ''https://localhost:8000/frame.html'') 0 False
        = Inr (Some ''https://localhost:8000/frame.html?$internalRuntimeVersion$'')
   \<and> getCustomBootstrapBaseUrl example_config
          (with_meta example_state 0 ''https://cdn.example.com/frame.html'') 0 True
        = Inr (Some ''https://cdn.example.com/frame.html?$internalRuntimeVersion$'')"
proof -
  have m: "meta_content (windows (with_meta example_state 0 c) 0) = Some c" for c
    by simp
  have h: "href (location (windows (with_meta example_state 0 c) 0)) = ''https://localhost:8000/doc.html''" for c
    by (simp add: example_window_def)
  have p: "parseUrl example_config = example_parseUrl" "isSecureUrl example_config = prefix ''https://''"
    by (simp_all add: example_config_def)
  have o: "example_parseUrl ''https://localhost:8000/doc.html''
             = \<lparr>hostname = ''localhost'', origin = ''https://localhost:8000''\<rparr>"
    "example_parseUrl ''https://localhost:8000/frame.html''
             = \<lparr>hostname = ''localhost'', origin = ''https://localhost:8000''\<rparr>"
    "example_parseUrl ''https://cdn.example.com/frame.html''
             = \<lparr>hostname = ''cdn.example.com'', origin = ''https://cdn.example.com''\<rparr>"
    by (simp_all add: example_parseUrl_def)
  show ?thesis
    using getCustomBootstrapBaseUrl_checks [OF m, of "''https://cdn.example.com/frame.html?x=1''" example_config False]
      getCustomBootstrapBaseUrl_checks [OF m, of "''https://localhost:8000/frame.html''" example_config True]
      getCustomBootstrapBaseUrl_checks [OF m, of "''https://localhost:8000/frame.html''" example_config False]
      getCustomBootstrapBaseUrl_checks [OF m, of "''https://cdn.example.com/frame.html''" example_config True]
    unfolding h p o by simp
qed

text \<open>
  C9, as the code has it. In local-development mode with no override set, in a build that
  is not minified, with the \<open>localDev\<close> flag of \<open>urls\<close> unset and no basename given,
  \<open>getDefaultBootstrapBaseUrl\<close> returns
  \<open>http://ads.localhost:<port>/dist.3p/current/frame.max.html\<close>, where the port is that of
  the window's location, or that of its parent's location when the window's own is empty.
\<close>

theorem getDefaultBootstrapBaseUrl_localDev:
  assumes "localDev (getMode cfg)" "truthy (overrideBootstrapBaseUrl st) = None"
    and "\<not> minified (getMode cfg)" "\<not> urls_localDev (urls cfg)"
  shows "(port (location (windows st w)) \<noteq> [] \<longrightarrow>
            getDefaultBootstrapBaseUrl cfg st w None
            = (Inr (''http://ads.localhost:'' @ port (location (windows st w))
                    @ ''/dist.3p/current/frame.max.html''), st))
       \<and> (port (location (windows st w)) = [] \<and> parent (windows st w) = Some p \<longrightarrow>
            getDefaultBootstrapBaseUrl cfg st w None
            = (Inr (''http://ads.localhost:'' @ port (location (windows st p))
                    @ ''/dist.3p/current/frame.max.html''), st))"
  using assms
  by (simp add: getDefaultBootstrapBaseUrl_def getAdsLocalhost_def truthy_def)

text \<open>The example window, on port 8000, in a build that is not minified.\<close>

theorem getDefaultBootstrapBaseUrl_localDev_witness:
  "localDev (getMode (localDev_config False))
   \<and> truthy (overrideBootstrapBaseUrl example_state) = None
   \<and> \<not> minified (getMode (localDev_config False))
   \<and> \<not> urls_localDev (urls (localDev_config False))
   \<and> port (location (windows example_state 0)) \<noteq> []
   \<and> getDefaultBootstrapBaseUrl (localDev_config False) example_state 0 None
       = (Inr ''http://ads.localhost:8000/dist.3p/current/frame.max.html'', example_state)"
proof -
  have a: "localDev (getMode (localDev_config False))"
    "truthy (overrideBootstrapBaseUrl example_state) = None"
    "\<not> minified (getMode (localDev_config False))"
    "\<not> urls_localDev (urls (localDev_config False))"
    by (simp_all add: localDev_config_def example_config_def example_state_def truthy_def)
  have b: "port (location (windows example_state 0)) = ''8000''"
    by (simp add: example_state_def example_window_def)
  from getDefaultBootstrapBaseUrl_localDev [OF a, of 0] a b show ?thesis
    by simp
qed

text \<open>
  C9 as worded fails in a minified build: local-development mode, no override set, and
  the result is the versioned path, not \<open>current/frame.max.html\<close>.
\<close>

theorem getDefaultBootstrapBaseUrl_minified_build:
  "localDev (getMode (localDev_config True))
   \<and> truthy (overrideBootstrapBaseUrl example_state) = None
   \<and> port (location (windows example_state 0)) = ''8000''
   \<and> fst (getDefaultBootstrapBaseUrl (localDev_config True) example_state 0 None)
       = Inr ''http://ads.localhost:8000/dist.3p/$internalRuntimeVersion$/frame.html''
   \<and> fst (getDefaultBootstrapBaseUrl (localDev_config True) example_state 0 None)
       \<noteq> Inr ''http://ads.localhost:8000/dist.3p/current/frame.max.html''"
  by (simp add: getDefaultBootstrapBaseUrl_def getAdsLocalhost_def truthy_def
      localDev_config_def example_config_def example_state_def example_window_def)

lemma truthy_Some: "truthy v = Some s \<longleftrightarrow> v = Some s \<and> s \<noteq> []"
  by (auto simp: truthy_def split: option.splits)

lemma getDefaultBootstrapBaseUrl_not_empty:
  "getDefaultBootstrapBaseUrl cfg st w b = (Inr url, st') \<Longrightarrow> url \<noteq> []"
  by (auto simp: getDefaultBootstrapBaseUrl_def truthy_Some Let_def
      split: option.splits sum.splits if_splits prod.splits)

lemma getBootstrapBaseUrl_cached:
  "truthy (bootstrapBaseUrl (windows st w)) = Some u \<Longrightarrow>
     getBootstrapBaseUrl cfg st w strict = (Inr u, st)"
  by (simp add: getBootstrapBaseUrl_def)

lemma getBootstrapBaseUrl_caches:
  assumes "getBootstrapBaseUrl cfg st w strict = (Inr u, st')"
  shows "truthy (bootstrapBaseUrl (windows st' w)) = Some u"
proof (cases "truthy (bootstrapBaseUrl (windows st w))")
  case (Some c)
  with assms show ?thesis by (simp add: getBootstrapBaseUrl_def)
next
  case None
  show ?thesis
  proof (cases "getCustomBootstrapBaseUrl cfg st w strict")
    case (Inl e)
    with assms None show ?thesis by (simp add: getBootstrapBaseUrl_def)
  next
    case (Inr custom)
    show ?thesis
    proof (cases "truthy custom")
      case (Some url)
      with assms None Inr have "u = url"
        and "st' = st\<lparr>windows := (windows st)(w := (windows st w)\<lparr>bootstrapBaseUrl := Some url\<rparr>)\<rparr>"
        by (auto simp: getBootstrapBaseUrl_def)
      with Some show ?thesis by (simp add: truthy_Some)
    next
      case no_custom: None
      obtain r st'' where d: "getDefaultBootstrapBaseUrl cfg st w None = (r, st'')"
        by (cases "getDefaultBootstrapBaseUrl cfg st w None")
      show ?thesis
      proof (cases r)
        case (Inl e)
        with assms None Inr no_custom d show ?thesis by (simp add: getBootstrapBaseUrl_def)
      next
        case r: (Inr url)
        with assms None Inr no_custom d have "u = url"
          and "st' = st''\<lparr>windows := (windows st'')(w := (windows st'' w)\<lparr>bootstrapBaseUrl := Some url\<rparr>)\<rparr>"
          by (auto simp: getBootstrapBaseUrl_def)
        moreover from d r have "url \<noteq> []"
          using getDefaultBootstrapBaseUrl_not_empty by blast
        ultimately show ?thesis by (simp add: truthy_Some)
      qed
    qed
  qed
qed

lemma example_first_call:
  "getBootstrapBaseUrl example_config example_state 0 False
   = (Inr ''https://d-1234.ampproject.net/$internalRuntimeVersion$/frame.html'',
      example_state\<lparr>windows := (windows example_state)
        (0 := example_window\<lparr>bootstrapBaseUrl :=
                 Some ''https://d-1234.ampproject.net/$internalRuntimeVersion$/frame.html'',
               random_calls := 1\<rparr>)\<rparr>)"
  by (simp add: getBootstrapBaseUrl_def getCustomBootstrapBaseUrl_def
      getDefaultBootstrapBaseUrl_def getSubDomain_def getRandom_def truthy_def Let_def
      example_config_def example_state_def example_window_def
      nat_to_string.simps digit_char_def)

lemma example_first_call':
  "getBootstrapBaseUrl example_config example_state 0 False = (Inr example_url1, example_state1)"
  unfolding example_url1_def example_state1_def by (rule example_first_call)

lemma example_default_again:
  "fst (getDefaultBootstrapBaseUrl example_config example_state1 0 None) = Inr example_url2"
  by (simp add: getDefaultBootstrapBaseUrl_def getSubDomain_def getRandom_def truthy_def Let_def
      example_config_def example_state_def example_state1_def example_window_def example_url2_def
      nat_to_string.simps digit_char_def)

lemma example_after_reset:
  "fst (getBootstrapBaseUrl example_config (resetBootstrapBaseUrlForTesting example_state1 0) 0 False)
   = Inr example_url2"
  by (simp add: getBootstrapBaseUrl_def getCustomBootstrapBaseUrl_def
      resetBootstrapBaseUrlForTesting_def
      getDefaultBootstrapBaseUrl_def getSubDomain_def getRandom_def truthy_def Let_def
      example_config_def example_state_def example_state1_def example_window_def example_url2_def
      nat_to_string.simps digit_char_def)

lemma example_urls_differ: "example_url1 \<noteq> example_url2"
  by (simp add: example_url1_def example_url2_def)

text \<open>
  C5. Memoization: when a call of \<open>getBootstrapBaseUrl\<close> on a window has returned a URL, a
  second call on that window returns the same string and changes nothing, whatever the
  strict flag. In the example the window's random source has moved on, so that computing
  the default URL again would give another subdomain, and the second call still returns
  the first URL; after \<open>resetBootstrapBaseUrlForTesting\<close> the next call returns the other
  subdomain.
\<close>

theorem getBootstrapBaseUrl_memoized:
  "(getBootstrapBaseUrl cfg st w strict = (Inr u, st') \<longrightarrow>
      getBootstrapBaseUrl cfg st' w strict2 = (Inr u, st'))
   \<and> getBootstrapBaseUrl example_config example_state 0 False = (Inr example_url1, example_state1)
   \<and> fst (getDefaultBootstrapBaseUrl example_config example_state1 0 None) = Inr example_url2
   \<and> getBootstrapBaseUrl example_config example_state1 0 False = (Inr example_url1, example_state1)
   \<and> fst (getBootstrapBaseUrl example_config
             (resetBootstrapBaseUrlForTesting example_state1 0) 0 False) = Inr example_url2
   \<and> example_url1 \<noteq> example_url2"
proof -
  have "getBootstrapBaseUrl cfg st' w strict2 = (Inr u, st')"
    if "getBootstrapBaseUrl cfg st w strict = (Inr u, st')"
    using getBootstrapBaseUrl_cached [OF getBootstrapBaseUrl_caches [OF that]] .
  moreover have "getBootstrapBaseUrl example_config example_state1 0 False
      = (Inr example_url1, example_state1)"
    using getBootstrapBaseUrl_cached [OF getBootstrapBaseUrl_caches [OF example_first_call']] .
  ultimately show ?thesis
    using example_first_call' example_default_again example_after_reset example_urls_differ
    by blast
qed

text \<open>The first call on the example window, then a call in strict mode.\<close>

theorem getBootstrapBaseUrl_memoized_witness:
  "getBootstrapBaseUrl example_config example_state 0 False = (Inr example_url1, example_state1)
   \<and> getBootstrapBaseUrl example_config example_state1 0 True = (Inr example_url1, example_state1)"
  using getBootstrapBaseUrl_memoized
    [where cfg = example_config and st = example_state and w = 0 and strict = False
       and u = example_url1 and st' = example_state1 and ?strict2.0 = True]
  by blast

text \<open>
  C10. On a window whose cache holds a URL, \<open>getBootstrapBaseUrl\<close> returns that URL and
  leaves the state alone for either value of the strict flag, also where
  \<open>getCustomBootstrapBaseUrl\<close> would raise: the checks are not run again. So a URL that a
  call with strict mode off has resolved is what a later call with strict mode on returns.
\<close>

theorem getBootstrapBaseUrl_cached_unchecked:
  "(truthy (bootstrapBaseUrl (windows st w)) = Some u \<longrightarrow>
      getBootstrapBaseUrl cfg st w strict = (Inr u, st))
   \<and> (getBootstrapBaseUrl cfg st w False = (Inr u, st') \<longrightarrow>
      getBootstrapBaseUrl cfg st' w True = (Inr u, st'))"
  using getBootstrapBaseUrl_cached getBootstrapBaseUrl_caches by blast

lemma localhost_first_call:
  "fst (getBootstrapBaseUrl example_config localhost_state 0 False) = Inr localhost_url"
  by (simp add: getBootstrapBaseUrl_def getCustomBootstrapBaseUrl_def assertHttpsUrl_def
      truthy_def Let_def localhost_state_def localhost_url_def
      example_config_def example_parseUrl_def example_window_def)

lemma localhost_strict_raises:
  "\<exists>e. getCustomBootstrapBaseUrl example_config st 0 True = Inl e"
  if "meta_content (windows st 0) = Some ''https://localhost:8000/frame.html''"
    and "href (location (windows st 0)) = ''https://localhost:8000/doc.html''"
  using that
  by (simp add: getCustomBootstrapBaseUrl_def assertHttpsUrl_def Let_def
      example_config_def example_parseUrl_def)

text \<open>
  The declared \<open>localhost\<close> URL is resolved with strict mode off and returned again with
  strict mode on, where a first call in strict mode raises.
\<close>

theorem getBootstrapBaseUrl_cached_unchecked_witness:
  "fst (getBootstrapBaseUrl example_config localhost_state 0 False) = Inr localhost_url
   \<and> fst (getBootstrapBaseUrl example_config
            (snd (getBootstrapBaseUrl example_config localhost_state 0 False)) 0 True)
       = Inr localhost_url
   \<and> (\<exists>e. fst (getBootstrapBaseUrl example_config localhost_state 0 True) = Inl e)"
proof -
  obtain st' where 1: "getBootstrapBaseUrl example_config localhost_state 0 False = (Inr localhost_url, st')"
    using localhost_first_call by (cases "getBootstrapBaseUrl example_config localhost_state 0 False") simp
  from getBootstrapBaseUrl_cached_unchecked
         [where st = localhost_state and st' = st' and w = 0 and u = localhost_url
            and cfg = example_config] 1
  have 2: "getBootstrapBaseUrl example_config st' 0 True = (Inr localhost_url, st')"
    by blast
  have "\<exists>e. getCustomBootstrapBaseUrl example_config localhost_state 0 True = Inl e"
    by (rule localhost_strict_raises) (simp_all add: localhost_state_def example_window_def)
  then have 3: "\<exists>e. fst (getBootstrapBaseUrl example_config localhost_state 0 True) = Inl e"
    by (auto simp: getBootstrapBaseUrl_def truthy_def localhost_state_def example_window_def)
  from 1 2 3 show ?thesis by simp
qed

section \<open>Properties of the sentinel\<close>

lemma windowDepth_loop_depth:
  "depth_below_top st w n \<Longrightarrow> windowDepth_loop st (Some w) d = Some (d + n)"
proof (induction n arbitrary: w d)
  case 0
  then show ?case by (subst windowDepth_loop.simps) simp
next
  case (Suc n)
  then obtain p where p: "parent (windows st w) = Some p" "p \<noteq> w" "depth_below_top st p n"
    by (auto split: option.splits)
  from Suc.IH [OF p(3), of "d + 1"] p(1,2) show ?case
    by (subst windowDepth_loop.simps) simp
qed

lemma generateSentinel_at_depth:
  assumes "depth_below_top st w n"
  shows "generateSentinel st w
    = Some (nat_to_string n @ ''-'' @ fst (getRandom st w), snd (getRandom st w))"
  using windowDepth_loop_depth [OF assms, of 0]
  by (simp add: generateSentinel_def case_prod_beta)

text \<open>
  C6. \<open>generateSentinel\<close> returns \<open>String(depth) + "-" + getRandom(window)\<close>, where the
  depth is the number of frames from the window up to the top window: \<open>0\<close> for a window
  that is its own parent, \<open>3\<close> for a window three levels below the top.
\<close>

theorem generateSentinel_depth:
  "(depth_below_top st w n \<longrightarrow>
      generateSentinel st w
      = Some (nat_to_string n @ ''-'' @ fst (getRandom st w), snd (getRandom st w)))
   \<and> (parent (windows st w) = Some w \<longrightarrow>
      generateSentinel st w = Some (''0-'' @ fst (getRandom st w), snd (getRandom st w)))
   \<and> (depth_below_top st w 3 \<longrightarrow>
      generateSentinel st w = Some (''3-'' @ fst (getRandom st w), snd (getRandom st w)))"
proof (intro conjI impI)
  assume "depth_below_top st w n"
  then show "generateSentinel st w
      = Some (nat_to_string n @ ''-'' @ fst (getRandom st w), snd (getRandom st w))"
    by (rule generateSentinel_at_depth)
next
  assume "parent (windows st w) = Some w"
  then have "depth_below_top st w 0" by simp
  from generateSentinel_at_depth [OF this] show
    "generateSentinel st w = Some (''0-'' @ fst (getRandom st w), snd (getRandom st w))"
    by (simp add: nat_to_string.simps digit_char_def)
next
  assume "depth_below_top st w 3"
  from generateSentinel_at_depth [OF this] show
    "generateSentinel st w = Some (''3-'' @ fst (getRandom st w), snd (getRandom st w))"
    by (simp add: nat_to_string.simps digit_char_def)
qed

lemma example_getRandom:
  "fst (getRandom \<lparr>windows = (\<lambda>i. example_window\<lparr>parent := f i\<rparr>), overrideBootstrapBaseUrl = None\<rparr> w)
   = ''1234''"
  by (simp add: getRandom_def Let_def example_window_def nat_to_string.simps digit_char_def)

text \<open>Four windows in a chain: window 0 is the top, window 3 lies three levels below it.\<close>

theorem generateSentinel_depth_witness:
  "parent (windows nested_state 0) = Some 0
   \<and> map_option fst (generateSentinel nested_state 0) = Some ''0-1234''
   \<and> depth_below_top nested_state 3 3
   \<and> map_option fst (generateSentinel nested_state 3) = Some ''3-1234''
   \<and> depth_below_top nested_state 2 2
   \<and> map_option fst (generateSentinel nested_state 2) = Some ''2-1234''"
proof -
  have top: "parent (windows nested_state 0) = Some 0"
    by (simp add: nested_state_def)
  have d1: "depth_below_top nested_state 1 1"
    using top by (simp add: nested_state_def)
  have d2: "depth_below_top nested_state 2 2"
    using d1 by (simp add: nested_state_def numeral_2_eq_2)
  have d3: "depth_below_top nested_state 3 3"
    using d2 by (simp add: nested_state_def numeral_3_eq_3 numeral_2_eq_2)
  have r: "fst (getRandom nested_state w) = ''1234''" for w
    unfolding nested_state_def by (rule example_getRandom)
  from generateSentinel_depth [of nested_state 0 2] generateSentinel_depth [of nested_state 3 2]
    generateSentinel_depth [of nested_state 2 2] top d2 d3
  show ?thesis
    by (simp add: r nat_to_string.simps digit_char_def)
qed

section \<open>Properties of the random string\<close>

lemma list_all_digits_append:
  "list_all is_digit (xs @ ys) \<longleftrightarrow> list_all is_digit xs \<and> list_all is_digit ys"
  by simp

lemma is_digit_zero: "is_digit (CHR ''0'')"
  by (simp add: is_digit_def)

text \<open>With a cryptographic source the result is a non-empty string of decimal digits.\<close>

lemma getRandom_crypto_digits:
  assumes "crypto_getRandomValues (windows st w) = Some fill"
  shows "list_all is_digit (fst (getRandom st w)) \<and> fst (getRandom st w) \<noteq> []"
  using assms
  by (simp add: getRandom_def Let_def nat_to_string_digits nat_to_string_not_Nil)

text \<open>
  Without one, the result is a string of decimal digits when \<open>Math.random()\<close> returns zero
  or a number that \<open>String\<close> prints in positional notation: one that is at least \<open>10^-6\<close>.
\<close>

lemma getRandom_fallback_digits:
  assumes "crypto_getRandomValues (windows st w) = None"
    and "Math_random (windows st w) (random_calls (windows st w)) = Decimal s n"
    and "s = 0 \<or> (- 6 < n \<and> n \<le> 0)"
  shows "list_all is_digit (fst (getRandom st w))"
proof (cases "s = 0")
  case True
  with assms(1,2) show ?thesis
    by (simp add: getRandom_def Let_def Number_toString_def substr_def is_digit_zero)
next
  case False
  with assms(3) have n: "- 6 < n" "n \<le> 0" by simp_all
  have k: "\<not> int (length (nat_to_string s)) \<le> n"
    using nat_to_string_not_Nil [of s] n(2) by (cases "nat_to_string s") simp_all
  from False n k have "Number_toString (Decimal s n)
      = ''0.'' @ replicate (nat (- n)) (CHR ''0'') @ nat_to_string s"
    by (simp add: Number_toString_def Let_def)
  then have "substr (Number_toString (Decimal s n)) 2
      = replicate (nat (- n)) (CHR ''0'') @ nat_to_string s"
    by (simp add: substr_def)
  moreover have "list_all is_digit (replicate (nat (- n)) (CHR ''0''))"
    by (simp add: list_all_iff is_digit_zero)
  ultimately show ?thesis using assms(1,2)
    by (simp add: getRandom_def Let_def nat_to_string_digits is_digit_zero)
qed

text \<open>
  C7 fails on the fallback path. For a random number below \<open>10^-6\<close> \<open>String\<close> prints
  exponent notation, and what is left after \<open>substr(2)\<close> has an \<open>e\<close> and a minus sign in it.
\<close>

theorem getRandom_fallback_exponent:
  "crypto_getRandomValues (windows fallback_state 0) = None
   \<and> Number_toString (Math_random (windows fallback_state 0) 0) = ''9.5367431640625e-7''
   \<and> fst (getRandom fallback_state 0) = ''5367431640625e-70''
   \<and> \<not> list_all is_digit (fst (getRandom fallback_state 0))"
proof -
  have d: "nat_to_string 95367431640625 = ''95367431640625''"
    by (simp add: nat_to_string.simps digit_char_def)
  have s: "Number_toString (Decimal 95367431640625 (- 6)) = ''9.5367431640625e-7''"
    by (simp add: Number_toString_def Let_def d nat_to_string.simps digit_char_def)
  have r: "fst (getRandom fallback_state 0) = ''5367431640625e-70''"
    by (simp add: getRandom_def Let_def fallback_state_def example_window_def s substr_def)
  show ?thesis
    unfolding r by (simp add: fallback_state_def example_window_def s is_digit_def)
qed

end
